theory Spec2Isabelle
  imports Complex_Main
begin

section \<open>Data model\<close>

text \<open>
  The declarations of \<^verbatim>\<open>types/vulnerability\<close> are not part of the sources at hand.
  The records below carry the fields that the agents write and that the orchestrator and
  the scoring agent read. Names that are keywords or constants of HOL carry a suffix
  (\<open>id_v\<close> for \<^verbatim>\<open>id\<close>) or a prime (local variables that share the name of a field).
\<close>

text \<open>
  Modelled from the spec: the type of \<^verbatim>\<open>Vulnerability.severity\<close> (declared in the missing
  \<^verbatim>\<open>types/vulnerability\<close>) is the closed three-valued enumeration ERROR, WARNING, INFO;
  every agent writes one of these three literals.
\<close>

datatype severity = ERROR | WARNING | INFO

record vulnerability =
  id_v :: string
  title :: string
  severity :: severity
  "file" :: string
  line :: nat
  description :: string
  recommendation :: string
  agentSource :: string

record workspaceFile =
  uri :: string
  fsPath :: string
  content :: string

datatype decision = GO | NO_GO

record scoreDetails =
  totalVulnerabilities :: nat
  errorCount :: nat
  warningCount :: nat
  infoCount :: nat
  finalScore :: int
  decision :: decision

record finalAuditReport =
  vulnerabilities :: "vulnerability list"
  scoreDetails :: scoreDetails
  timestamp :: string

datatype jsError = SyntaxError | TypeError | RangeError | Error string

section \<open>Strings\<close>

text \<open>\<^verbatim>\<open>String.prototype.endsWith\<close>.\<close>

definition endsWith :: "string \<Rightarrow> string \<Rightarrow> bool" where
  "endsWith s suffix' =
     (length suffix' \<le> length s \<and> drop (length s - length suffix') s = suffix')"

text \<open>
  The path tests of the agents are regular expressions of the shape
  \<^verbatim>\<open>/\.(ts|js|jsx|tsx)$/i\<close>: the path ends, ignoring the case of the ASCII letters, with a
  dot and one of the listed extensions.
\<close>

definition lower :: "char \<Rightarrow> char" where
  "lower c =
     (case map_of (zip ''ABCDEFGHIJKLMNOPQRSTUVWXYZ'' ''abcdefghijklmnopqrstuvwxyz'') c of
        Some d \<Rightarrow> d
      | None \<Rightarrow> c)"

definition matchesExt :: "string list \<Rightarrow> string \<Rightarrow> bool" where
  "matchesExt exts path = list_ex (\<lambda>e. endsWith (map lower path) (CHR ''.'' # e)) exts"

text \<open>\<^verbatim>\<open>s.substring(start, end)\<close> for indices that are natural numbers.\<close>

definition substring :: "string \<Rightarrow> nat \<Rightarrow> nat \<Rightarrow> string" where
  "substring s start end' =
     (let a = min start end'; b = max start end' in take (b - a) (drop a s))"

text \<open>\<^verbatim>\<open>s.split(sep)\<close> for a separator of one character: never empty, \<^verbatim>\<open>''.split(sep)\<close> is \<^verbatim>\<open>['']\<close>.\<close>

fun split :: "string \<Rightarrow> char \<Rightarrow> string list" where
  "split [] sep = [[]]"
| "split (c # cs) sep =
     (if c = sep then [] # split cs sep
      else (case split cs sep of
              piece # pieces \<Rightarrow> (c # piece) # pieces
            | [] \<Rightarrow> [[c]]))"

text \<open>
  The conversion of the offset of a match into a line number, as every agent writes it:
  \<^verbatim>\<open>file.content.substring(0, match.index).split('\n').length\<close>.
\<close>

definition lineNumberAt :: "string \<Rightarrow> nat \<Rightarrow> nat" where
  "lineNumberAt content' index' = length (split (substring content' 0 index') (CHR 0x0A))"

section \<open>Regular expressions\<close>

text \<open>
  The regular expression engine is not part of the repository. A global regular expression
  is taken as the function that maps a content to the successive matches which the loop
  \<^verbatim>\<open>lastIndex = 0; while ((match = re.exec(content)) !== null)\<close> visits, in that order. Of a
  match the agents read \<^verbatim>\<open>match.index\<close>, \<^verbatim>\<open>match[0]\<close> and \<^verbatim>\<open>match[1]\<close>.
\<close>

record regExpMatch =
  index :: nat
  match0 :: string
  match1 :: string

type_synonym regExp = "string \<Rightarrow> regExpMatch list"

section \<open>Security agent\<close>

text \<open>
  The TypeScript compiler is not part of the repository either. Of a node the agent reads
  its kind, for a call its \<^verbatim>\<open>expression\<close>, for an identifier its \<^verbatim>\<open>text\<close>, for a JSX
  attribute the source text of its \<^verbatim>\<open>name\<close>, the zero-based line of its start
  (\<^verbatim>\<open>sourceFile.getLineAndCharacterOfPosition(node.getStart(sourceFile)).line\<close>) and its
  children in the order of \<^verbatim>\<open>ts.forEachChild\<close>. Every constructor ends with the source text
  and the line of the node.
\<close>

datatype tsNode =
    Identifier string string nat
  | CallExpression tsNode "tsNode list" string nat
  | JsxAttribute tsNode "tsNode list" string nat
  | OtherNode "tsNode list" string nat

text \<open>
  What \<^verbatim>\<open>ts.createSourceFile\<close> returns: the root of the tree and the diagnostics of the
  parser. The parser recovers from syntax errors: for a malformed text it returns a tree
  all the same, with diagnostics. The agent never reads the diagnostics.
\<close>

record tsSourceFile =
  rootNode :: tsNode
  parseDiagnostics :: "string list"

fun forEachChild :: "tsNode \<Rightarrow> tsNode list" where
  "forEachChild (Identifier t g l) = []"
| "forEachChild (CallExpression e rest g l) = e # rest"
| "forEachChild (JsxAttribute n rest g l) = n # rest"
| "forEachChild (OtherNode children g l) = children"

fun getText :: "tsNode \<Rightarrow> string" where
  "getText (Identifier t g l) = g"
| "getText (CallExpression e rest g l) = g"
| "getText (JsxAttribute n rest g l) = g"
| "getText (OtherNode children g l) = g"

fun startLine :: "tsNode \<Rightarrow> nat" where
  "startLine (Identifier t g l) = l"
| "startLine (CallExpression e rest g l) = l"
| "startLine (JsxAttribute n rest g l) = l"
| "startLine (OtherNode children g l) = l"

text \<open>
  \<^verbatim>\<open>ts.isCallExpression(node) && ts.isIdentifier(node.expression) &&
  node.expression.text === 'eval'\<close>
\<close>

fun isEvalCall :: "tsNode \<Rightarrow> bool" where
  "isEvalCall (CallExpression (Identifier t g' l') rest g l) = (t = ''eval'')"
| "isEvalCall node = False"

text \<open>
  \<^verbatim>\<open>ts.isJsxAttribute(node) && node.name.getText(sourceFile) === 'dangerouslySetInnerHTML'\<close>
\<close>

fun isDangerouslySetInnerHTML :: "tsNode \<Rightarrow> bool" where
  "isDangerouslySetInnerHTML (JsxAttribute n rest g l) = (getText n = ''dangerouslySetInnerHTML'')"
| "isDangerouslySetInnerHTML node = False"

definition evalFinding :: "string \<Rightarrow> nat \<Rightarrow> vulnerability" where
  "evalFinding path line' =
     \<lparr> id_v = ''eval-usage'',
       title = ''Unsafe eval() Execution'',
       severity = ERROR,
       file = path,
       line = line',
       description = ''Usage of eval() detected, which makes your application susceptible to remote code execution (RCE).'',
       recommendation = ''Replace eval() with safe parsers like JSON.parse() or dedicated string formatters.'',
       agentSource = ''SecurityAgent'' \<rparr>"

definition innerHtmlFinding :: "string \<Rightarrow> nat \<Rightarrow> vulnerability" where
  "innerHtmlFinding path line' =
     \<lparr> id_v = ''dangerously-set-inner-html'',
       title = ''XSS Vector: dangerouslySetInnerHTML'',
       severity = ERROR,
       file = path,
       line = line',
       description = ''Found dangerouslySetInnerHTML property natively rendering unfiltered raw HTML to the DOM.'',
       recommendation = ''Refactor to standard React properties or securely sanitize input using DOMPurify before setting dangerously.'',
       agentSource = ''SecurityAgent'' \<rparr>"

definition secretFinding :: "string \<Rightarrow> nat \<Rightarrow> vulnerability" where
  "secretFinding path lineNumber =
     \<lparr> id_v = ''env-isolation'',
       title = ''Hardcoded Secret Key'',
       severity = ERROR,
       file = path,
       line = lineNumber,
       description = ''Potential production key, API token, or secret hardcoded directly into source file.'',
       recommendation = ''Move credentials into .env.local ignored files and access them dynamically via process.env.'',
       agentSource = ''SecurityAgent'' \<rparr>"

definition debugFinding :: "string \<Rightarrow> nat \<Rightarrow> vulnerability" where
  "debugFinding path lineNumber =
     \<lparr> id_v = ''debug-exposure'',
       title = ''Data Leak (Debug Mode)'',
       severity = WARNING,
       file = path,
       line = lineNumber,
       description = ''Identified explicitly exposed debug endpoints or unsafe logging of sensitive tokens.'',
       recommendation = ''Wipe all development debug toggles and internal test routes before pushing to production branches.'',
       agentSource = ''SecurityAgent'' \<rparr>"

text \<open>
  The closure \<^verbatim>\<open>visit\<close>: the state is the array \<^verbatim>\<open>findings\<close> and the set
  \<^verbatim>\<open>astParsedKeys\<close>; the callback returns nothing, so \<^verbatim>\<open>ts.forEachChild\<close> goes through all
  the children (\<open>visitChildren\<close>). The walk is recursive, one nested call of \<^verbatim>\<open>visit\<close> for
  every level of the tree, and the call stack is finite: \<open>room\<close> is the number of nested
  calls of \<^verbatim>\<open>visit\<close> for which the stack has room. A call for which no room is left throws
  a RangeError, which ends the walk; the result is the state with what was pushed until
  then, and the error thrown, if any.
\<close>

function visit :: "nat \<Rightarrow> string \<Rightarrow> tsNode \<Rightarrow> vulnerability list \<times> string set
                    \<Rightarrow> (vulnerability list \<times> string set) \<times> jsError option"
  and visitChildren :: "nat \<Rightarrow> string \<Rightarrow> tsNode list \<Rightarrow> vulnerability list \<times> string set
                    \<Rightarrow> (vulnerability list \<times> string set) \<times> jsError option" where
  "visit room path node (findings, astParsedKeys) =
     (if room = 0 then ((findings, astParsedKeys), Some RangeError)
      else
        let st1 = (if isEvalCall node
                   then (findings @ [evalFinding path (startLine node + 1)],
                         insert ''eval-usage'' astParsedKeys)
                   else (findings, astParsedKeys));
            st2 = (if isDangerouslySetInnerHTML node
                   then (fst st1 @ [innerHtmlFinding path (startLine node + 1)],
                         insert ''dangerously-set-inner-html'' (snd st1))
                   else st1)
        in visitChildren (room - 1) path (forEachChild node) st2)"
| "visitChildren room path [] st = (st, None)"
| "visitChildren room path (child # children) st =
     (case visit room path child st of
        (st', None) \<Rightarrow> visitChildren room path children st'
      | (st', Some err) \<Rightarrow> (st', Some err))"
  by pat_completeness auto
termination
  by (relation "inv_image (less_than <*lex*> less_than)
        (\<lambda>x. case x of Inl (room, path, node, st) \<Rightarrow> (room, 0)
                      | Inr (room, path, children, st) \<Rightarrow> (room, Suc (length children)))")
     auto

text \<open>
  The pattern loops push one finding for every match, at the line of the offset of the
  match.
\<close>

definition pushSecrets :: "regExp \<Rightarrow> workspaceFile \<Rightarrow> vulnerability list \<Rightarrow> vulnerability list" where
  "pushSecrets secretRegex file' findings =
     fold (\<lambda>match findings.
             let lineNumber = lineNumberAt (content file') (index match)
             in findings @ [secretFinding (fsPath file') lineNumber])
          (secretRegex (content file')) findings"

definition pushDebug :: "regExp \<Rightarrow> workspaceFile \<Rightarrow> vulnerability list \<Rightarrow> vulnerability list" where
  "pushDebug debugRegex file' findings =
     fold (\<lambda>match findings.
             let lineNumber = lineNumberAt (content file') (index match)
             in findings @ [debugFinding (fsPath file') lineNumber])
          (debugRegex (content file')) findings"

text \<open>
  Part 1 of the loop body: the structural pass inside \<^verbatim>\<open>try\<close>, which encloses both
  \<^verbatim>\<open>ts.createSourceFile\<close> and the walk. A throw of the parser (\<open>Inl\<close>) is caught and leaves
  \<^verbatim>\<open>findings\<close> as it was; a throw of the walk is caught too, and \<^verbatim>\<open>findings\<close> keeps what
  the walk pushed before it.
\<close>

definition astPass :: "(string \<Rightarrow> string \<Rightarrow> jsError + tsSourceFile) \<Rightarrow> nat \<Rightarrow> workspaceFile
                        \<Rightarrow> vulnerability list \<Rightarrow> vulnerability list" where
  "astPass createSourceFile stackRoom file' findings =
     (if matchesExt [''ts'', ''js'', ''jsx'', ''tsx''] (fsPath file')
      then (case createSourceFile (fsPath file') (content file') of
              Inr sourceFile \<Rightarrow>
                (case visit stackRoom (fsPath file') (rootNode sourceFile) (findings, {}) of
                   ((findings, astParsedKeys), None) \<Rightarrow> findings
                 | ((findings, astParsedKeys), Some err) \<Rightarrow> findings)
            | Inl err \<Rightarrow> findings)
      else findings)"

definition securityFile :: "regExp \<Rightarrow> regExp \<Rightarrow> (string \<Rightarrow> string \<Rightarrow> jsError + tsSourceFile)
                             \<Rightarrow> nat \<Rightarrow> workspaceFile \<Rightarrow> vulnerability list
                             \<Rightarrow> vulnerability list" where
  "securityFile secretRegex debugRegex createSourceFile stackRoom file' findings =
     pushDebug debugRegex file'
       (pushSecrets secretRegex file'
          (astPass createSourceFile stackRoom file' findings))"

definition runSecurityAgent :: "regExp \<Rightarrow> regExp \<Rightarrow> (string \<Rightarrow> string \<Rightarrow> jsError + tsSourceFile)
                                 \<Rightarrow> nat \<Rightarrow> workspaceFile list \<Rightarrow> vulnerability list" where
  "runSecurityAgent secretRegex debugRegex createSourceFile stackRoom files =
     fold (securityFile secretRegex debugRegex createSourceFile stackRoom) files []"

section \<open>Dependency agent\<close>

text \<open>
  \<^verbatim>\<open>JSON.parse\<close> belongs to the runtime and is a parameter of the agent: it returns a value
  or throws (\<open>Inl\<close>). An object is the list of its own properties in the order of their
  creation.
\<close>

datatype json =
    JNull
  | JBool bool
  | JNum real
  | JStr string
  | JArr "json list"
  | JObj "(string \<times> json) list"

text \<open>
  \<^verbatim>\<open>pkg.dependencies\<close> and \<^verbatim>\<open>pkg.devDependencies\<close>: reading a property of \<^verbatim>\<open>null\<close>
  throws a TypeError; the two names are own properties of objects only (they are neither
  indices nor members of a prototype), everything else answers \<^verbatim>\<open>undefined\<close> (\<open>None\<close>).
\<close>

fun getProp :: "json \<Rightarrow> string \<Rightarrow> jsError + json option" where
  "getProp JNull name = Inl TypeError"
| "getProp (JObj props) name = Inr (map_of props name)"
| "getProp v name = Inr None"

text \<open>
  \<^verbatim>\<open>value || {}\<close>: \<^verbatim>\<open>undefined\<close>, \<^verbatim>\<open>null\<close>, \<^verbatim>\<open>false\<close>, \<^verbatim>\<open>0\<close> and \<^verbatim>\<open>''\<close> are
  falsy.
\<close>

fun orEmptyObject :: "json option \<Rightarrow> json" where
  "orEmptyObject None = JObj []"
| "orEmptyObject (Some JNull) = JObj []"
| "orEmptyObject (Some (JBool b)) = (if b then JBool b else JObj [])"
| "orEmptyObject (Some (JNum x)) = (if x = 0 then JObj [] else JNum x)"
| "orEmptyObject (Some (JStr s)) = (if s = [] then JObj [] else JStr s)"
| "orEmptyObject (Some v) = v"

text \<open>
  The order in which the own properties of an object are enumerated: the array indices
  (canonical decimal numerals below \<open>2\<^sup>3\<^sup>2 - 1\<close>) in ascending order, then the other names
  in the order of their creation.
\<close>

definition digitValue :: "char \<Rightarrow> nat" where
  "digitValue c = (case map_of (zip ''0123456789'' [0 ..< 10]) c of Some d \<Rightarrow> d | None \<Rightarrow> 0)"

definition decimalValue :: "string \<Rightarrow> nat" where
  "decimalValue s = foldl (\<lambda>n c. 10 * n + digitValue c) 0 s"

definition isArrayIndex :: "string \<Rightarrow> bool" where
  "isArrayIndex s =
     (s \<noteq> [] \<and> list_all (\<lambda>c. c \<in> set ''0123456789'') s
      \<and> (s = ''0'' \<or> take 1 s \<noteq> ''0'') \<and> decimalValue s < 4294967295)"

definition ownProperties :: "(string \<times> json) list \<Rightarrow> (string \<times> json) list" where
  "ownProperties props =
     sort_key (\<lambda>p. decimalValue (fst p)) (filter (\<lambda>p. isArrayIndex (fst p)) props)
     @ filter (\<lambda>p. \<not> isArrayIndex (fst p)) props"

function toDecimal :: "nat \<Rightarrow> string" where
  "toDecimal n =
     (if n < 10 then [''0123456789'' ! n]
      else toDecimal (n div 10) @ [''0123456789'' ! (n mod 10)])"
  by pat_completeness auto
termination
  by (relation "measure (\<lambda>n. n)") auto

text \<open>
  The own enumerable properties that a spread \<^verbatim>\<open>...value\<close> copies: those of an object, the
  elements of an array and the characters of a string under their indices, none of a
  number or a boolean.
\<close>

fun spreadProperties :: "json \<Rightarrow> (string \<times> json) list" where
  "spreadProperties (JObj props) = ownProperties props"
| "spreadProperties (JArr elems) = zip (map toDecimal [0 ..< length elems]) elems"
| "spreadProperties (JStr s) = zip (map toDecimal [0 ..< length s]) (map (\<lambda>c. JStr [c]) s)"
| "spreadProperties v = []"

text \<open>Defining a property: a name that exists keeps its place and takes the new value.\<close>

fun setProp :: "string \<times> json \<Rightarrow> (string \<times> json) list \<Rightarrow> (string \<times> json) list" where
  "setProp (k, v) [] = [(k, v)]"
| "setProp (k, v) ((k', v') # props) =
     (if k = k' then (k, v) # props else (k', v') # setProp (k, v) props)"

text \<open>\<^verbatim>\<open>{ ...a, ...b }\<close>\<close>

definition objectSpread :: "json \<Rightarrow> json \<Rightarrow> (string \<times> json) list" where
  "objectSpread a b = fold setProp (spreadProperties b) (fold setProp (spreadProperties a) [])"

definition objectKeys :: "(string \<times> json) list \<Rightarrow> string list" where
  "objectKeys props = map fst (ownProperties props)"

definition blacklistedDeps :: "string list" where
  "blacklistedDeps = [''request'', ''left-pad'', ''crypto-js'']"

definition blacklistedFinding :: "string \<Rightarrow> string \<Rightarrow> vulnerability" where
  "blacklistedFinding path dep =
     \<lparr> id_v = ''blacklisted-dependency'',
       title = ''Deprecated / Unsafe Dependency'',
       severity = WARNING,
       file = path,
       line = 1,
       description = ''The package '' @ CHR 0x27 # dep @ CHR 0x27 # '' is blacklisted due to known vulnerabilities, deprecation, or poor maintenance.'',
       recommendation = ''Remove '' @ CHR 0x27 # dep @ CHR 0x27 # '' and migrate to natively secure alternatives (e.g., Node's native 'fetch' or 'axios').'',
       agentSource = ''DependencyAgent'' \<rparr>"

definition malformedFinding :: "string \<Rightarrow> vulnerability" where
  "malformedFinding path =
     \<lparr> id_v = ''malformed-package-json'',
       title = ''Malformed Dependency Manifest'',
       severity = INFO,
       file = path,
       line = 1,
       description = ''The package.json file could not be parsed as valid JSON.'',
       recommendation = ''Fix JSON formatting to allow NPM and scanners to install dependencies properly.'',
       agentSource = ''DependencyAgent'' \<rparr>"

text \<open>
  The first two statements of the \<^verbatim>\<open>try\<close> block, the only ones that can throw: they end
  with the object \<^verbatim>\<open>deps\<close> or with the error thrown. Nothing has been pushed when they
  throw.
\<close>

definition readDeps :: "(string \<Rightarrow> jsError + json) \<Rightarrow> string \<Rightarrow> jsError + (string \<times> json) list" where
  "readDeps JSON_parse content' =
     (case JSON_parse content' of
        Inl err \<Rightarrow> Inl err
      | Inr pkg \<Rightarrow>
          (case getProp pkg ''dependencies'' of
             Inl err \<Rightarrow> Inl err
           | Inr dependencies \<Rightarrow>
               (case getProp pkg ''devDependencies'' of
                  Inl err \<Rightarrow> Inl err
                | Inr devDependencies \<Rightarrow>
                    Inr (objectSpread (orEmptyObject dependencies)
                                      (orEmptyObject devDependencies)))))"

definition dependencyFile :: "(string \<Rightarrow> jsError + json) \<Rightarrow> workspaceFile
                               \<Rightarrow> vulnerability list \<Rightarrow> vulnerability list" where
  "dependencyFile JSON_parse file' findings =
     (if \<not> endsWith (fsPath file') ''package.json'' then findings
      else (case readDeps JSON_parse (content file') of
              Inr deps \<Rightarrow>
                fold (\<lambda>dep findings.
                        if dep \<in> set blacklistedDeps
                        then findings @ [blacklistedFinding (fsPath file') dep]
                        else findings)
                     (objectKeys deps) findings
            | Inl e \<Rightarrow> findings @ [malformedFinding (fsPath file')]))"

definition runDependencyAgent :: "(string \<Rightarrow> jsError + json) \<Rightarrow> workspaceFile list
                                   \<Rightarrow> vulnerability list" where
  "runDependencyAgent JSON_parse files = fold (dependencyFile JSON_parse) files []"

section \<open>Compliance agent\<close>

definition piiFinding :: "string \<Rightarrow> nat \<Rightarrow> vulnerability" where
  "piiFinding path numLines =
     \<lparr> id_v = ''pii-leakage'',
       title = ''Compliance: PII Data Logging'',
       severity = ERROR,
       file = path,
       line = numLines,
       description = ''Logging explicit Personally Identifiable Information (PII) directly to console output violates GDPR and SOC2 compliance.'',
       recommendation = ''Mask all sensitive data elements (e.g. hash passports and strings) prior to logging out.'',
       agentSource = ''ComplianceAgent'' \<rparr>"

definition loggingFinding :: "string \<Rightarrow> nat \<Rightarrow> string \<Rightarrow> vulnerability" where
  "loggingFinding path numLines matched =
     \<lparr> id_v = ''observability-failure'',
       title = ''Operational Visibility Risk'',
       severity = INFO,
       file = path,
       line = numLines,
       description = ''Raw usage of '' @ matched @ ''... is not reliable for scalable tracing in production.'',
       recommendation = ''Recommend using a dedicated monitoring/logging framework (e.g., Winston, Sentry, Datadog) instead of native STDOUT buffers.'',
       agentSource = ''ComplianceAgent'' \<rparr>"

definition complianceFile :: "regExp \<Rightarrow> regExp \<Rightarrow> workspaceFile
                               \<Rightarrow> vulnerability list \<Rightarrow> vulnerability list" where
  "complianceFile piiRegex basicLoggingRule file' findings =
     (if \<not> matchesExt [''ts'', ''js'', ''jsx'', ''tsx'', ''py''] (fsPath file') then findings
      else
        let findings = fold (\<lambda>match findings.
                               let numLines = lineNumberAt (content file') (index match)
                               in findings @ [piiFinding (fsPath file') numLines])
                            (piiRegex (content file')) findings
        in fold (\<lambda>match findings.
                   let numLines = lineNumberAt (content file') (index match)
                   in findings @ [loggingFinding (fsPath file') numLines (match0 match)])
                (basicLoggingRule (content file')) findings)"

definition runComplianceAgent :: "regExp \<Rightarrow> regExp \<Rightarrow> workspaceFile list \<Rightarrow> vulnerability list" where
  "runComplianceAgent piiRegex basicLoggingRule files =
     fold (complianceFile piiRegex basicLoggingRule) files []"

section \<open>AI risk agent\<close>

definition promptInjectionFinding :: "string \<Rightarrow> nat \<Rightarrow> vulnerability" where
  "promptInjectionFinding path numLines =
     \<lparr> id_v = ''ai-prompt-injection'',
       title = ''AI Code Risk: Prompt Injection Vulnerability'',
       severity = WARNING,
       file = path,
       line = numLines,
       description = ''Detected raw user input being directly appended or interpolated into an LLM prompt.'',
       recommendation = ''Sanitize input thoroughly. Provide strict system boundaries or utilize explicit function calling rather than relying on unstructured text parsing from clients.'',
       agentSource = ''AiRiskAgent'' \<rparr>"

definition aiRiskFile :: "regExp \<Rightarrow> workspaceFile \<Rightarrow> vulnerability list \<Rightarrow> vulnerability list" where
  "aiRiskFile promptInjectionRegex file' findings =
     (if \<not> matchesExt [''ts'', ''js'', ''py''] (fsPath file') then findings
      else fold (\<lambda>match findings.
                   let numLines = lineNumberAt (content file') (index match)
                   in findings @ [promptInjectionFinding (fsPath file') numLines])
                (promptInjectionRegex (content file')) findings)"

definition runAiRiskAgent :: "regExp \<Rightarrow> workspaceFile list \<Rightarrow> vulnerability list" where
  "runAiRiskAgent promptInjectionRegex files = fold (aiRiskFile promptInjectionRegex) files []"

section \<open>Architecture agent\<close>

definition godObjectFinding :: "string \<Rightarrow> vulnerability" where
  "godObjectFinding path =
     \<lparr> id_v = ''architecture-fragility'',
       title = ''Architecture Fragility: God Object'',
       severity = WARNING,
       file = path,
       line = 1,
       description = ''Massive monolithic file detected (>1000 lines).'',
       recommendation = ''Break this module down into smaller, composable elements for testing and maintainability.'',
       agentSource = ''ArchitectureAgent'' \<rparr>"

definition dbImportFinding :: "string \<Rightarrow> nat \<Rightarrow> string \<Rightarrow> vulnerability" where
  "dbImportFinding path numLines client =
     \<lparr> id_v = ''architecture-fragility-db'',
       title = ''Severe Anti-Pattern: Frontend DB Access'',
       severity = ERROR,
       file = path,
       line = numLines,
       description = ''Client UI file directly imports server-side DB client '' @ CHR 0x27 # client @ CHR 0x27 # ''.'',
       recommendation = ''Refactor this logic into a dedicated backend API route or Server Component/Action layer.'',
       agentSource = ''ArchitectureAgent'' \<rparr>"

definition architectureFile :: "regExp \<Rightarrow> workspaceFile \<Rightarrow> vulnerability list \<Rightarrow> vulnerability list" where
  "architectureFile serverDbImports file' findings =
     (let lines = split (content file') (CHR 0x0A);
          findings = (if length lines > 1000
                      then findings @ [godObjectFinding (fsPath file')]
                      else findings)
      in if matchesExt [''tsx'', ''jsx''] (fsPath file')
         then fold (\<lambda>match findings.
                      let numLines = lineNumberAt (content file') (index match)
                      in findings @ [dbImportFinding (fsPath file') numLines (match1 match)])
                   (serverDbImports (content file')) findings
         else findings)"

definition runArchitectureAgent :: "regExp \<Rightarrow> workspaceFile list \<Rightarrow> vulnerability list" where
  "runArchitectureAgent serverDbImports files = fold (architectureFile serverDbImports) files []"

section \<open>Scoring agent\<close>

text \<open>The body of the counting loop, on the three counters.\<close>

fun countSeverity :: "vulnerability \<Rightarrow> nat \<times> nat \<times> nat \<Rightarrow> nat \<times> nat \<times> nat" where
  "countSeverity v (errorCount', warningCount', infoCount') =
     (if severity v = ERROR then (errorCount' + 1, warningCount', infoCount')
      else if severity v = WARNING then (errorCount', warningCount' + 1, infoCount')
      else (errorCount', warningCount', infoCount' + 1))"

text \<open>
  The timestamp \<^verbatim>\<open>new Date().toISOString()\<close> is read from the clock; the report takes it as
  the argument \<open>now\<close>.
\<close>

definition runScoringAgent :: "string \<Rightarrow> vulnerability list \<Rightarrow> finalAuditReport" where
  "runScoringAgent now vulnerabilities' =
     (case fold countSeverity vulnerabilities' (0, 0, 0) of
        (errorCount', warningCount', infoCount') \<Rightarrow>
          let score = 100;
              score = score - (int errorCount' * 25);
              score = score - (int warningCount' * 10);
              score = score - (int infoCount' * 2);
              score = max 0 score;
              decision' = (if errorCount' > 0 \<or> score < 50 then NO_GO else GO)
          in \<lparr> vulnerabilities = vulnerabilities',
               scoreDetails = \<lparr> totalVulnerabilities = length vulnerabilities',
                                errorCount = errorCount',
                                warningCount = warningCount',
                                infoCount = infoCount',
                                finalScore = score,
                                decision = decision' \<rparr>,
               timestamp = now \<rparr>)"

section \<open>Orchestrator\<close>

text \<open>\<^verbatim>\<open>Array.prototype.findIndex\<close>: the first index whose element passes, or \<open>-1\<close>.\<close>

fun findIndex :: "('a \<Rightarrow> bool) \<Rightarrow> 'a list \<Rightarrow> int" where
  "findIndex p [] = - 1"
| "findIndex p (x # xs) =
     (if p x then 0
      else (let r = findIndex p xs in if r = - 1 then - 1 else r + 1))"

text \<open>\<^verbatim>\<open>Array.prototype.filter\<close> with the callback \<^verbatim>\<open>(element, index, self)\<close>.\<close>

definition filterIndexed :: "('a \<Rightarrow> nat \<Rightarrow> 'a list \<Rightarrow> bool) \<Rightarrow> 'a list \<Rightarrow> 'a list" where
  "filterIndexed callback self =
     map fst (filter (\<lambda>(element, index'). callback element index' self)
                     (zip self [0 ..< length self]))"

definition uniqueFindings :: "vulnerability list \<Rightarrow> vulnerability list" where
  "uniqueFindings allFindings =
     filterIndexed
       (\<lambda>finding index' self.
          int index' = findIndex (\<lambda>t. id_v t = id_v finding \<and> file t = file finding
                                      \<and> line t = line finding) self)
       allFindings"

text \<open>
  What the agents take from outside the repository: the six regular expressions, the
  TypeScript parser, the room of the call stack when the walk of a tree begins, and the
  JSON parser.
\<close>

record runtime =
  secretRegex :: regExp
  debugRegex :: regExp
  piiRegex :: regExp
  basicLoggingRule :: regExp
  promptInjectionRegex :: regExp
  serverDbImports :: regExp
  createSourceFile :: "string \<Rightarrow> string \<Rightarrow> jsError + tsSourceFile"
  stackRoom :: nat
  JSON_parse :: "string \<Rightarrow> jsError + json"

text \<open>
  The agents are asynchronous functions that never await: each runs to its end when it is
  called, in the order of the array given to \<^verbatim>\<open>Promise.all\<close>, and shares no state with the
  others.
\<close>

definition allFindings :: "runtime \<Rightarrow> workspaceFile list \<Rightarrow> vulnerability list" where
  "allFindings rt files =
     (let securityFindings = runSecurityAgent (secretRegex rt) (debugRegex rt)
                               (createSourceFile rt) (stackRoom rt) files;
          dependencyFindings = runDependencyAgent (JSON_parse rt) files;
          complianceFindings = runComplianceAgent (piiRegex rt) (basicLoggingRule rt) files;
          aiRiskFindings = runAiRiskAgent (promptInjectionRegex rt) files;
          architectureFindings = runArchitectureAgent (serverDbImports rt) files
      in securityFindings @ dependencyFindings @ complianceFindings @ aiRiskFindings
         @ architectureFindings)"

definition runAudit :: "runtime \<Rightarrow> string \<Rightarrow> workspaceFile list \<Rightarrow> finalAuditReport" where
  "runAudit rt now files = runScoringAgent now (uniqueFindings (allFindings rt files))"


section \<open>Notions of the specification\<close>

text \<open>\<open>clamp x lo hi\<close> confines \<open>x\<close> to the interval from \<open>lo\<close> to \<open>hi\<close>.\<close>

definition clamp :: "int \<Rightarrow> int \<Rightarrow> int \<Rightarrow> int" where
  "clamp x lo hi = max lo (min hi x)"

text \<open>The number of findings of one severity.\<close>

definition countOf :: "severity \<Rightarrow> vulnerability list \<Rightarrow> nat" where
  "countOf s vs = length (filter (\<lambda>v. severity v = s) vs)"

text \<open>A list of two errors, one warning and three notes.\<close>

definition sixFindings :: "vulnerability list" where
  "sixFindings =
     [evalFinding ''a.ts'' 1, secretFinding ''a.ts'' 2, debugFinding ''a.ts'' 3,
      malformedFinding ''package.json'', loggingFinding ''a.ts'' 4 ''console.log('',
      loggingFinding ''a.ts'' 5 ''console.log('']"

text \<open>The key on which the orchestrator compares two findings.\<close>

definition dedupKey :: "vulnerability \<Rightarrow> string \<times> string \<times> nat" where
  "dedupKey v = (id_v v, file v, line v)"

text \<open>
  The lines of a content are the pieces of \<^verbatim>\<open>content.split('\n')\<close>; line \<open>N\<close>, counted from 1,
  begins at the offset that follows the first \<open>N - 1\<close> pieces and their line feeds.
\<close>

definition lineStart :: "string \<Rightarrow> nat \<Rightarrow> nat" where
  "lineStart content' N =
     sum_list (map (\<lambda>l. length l + 1) (take (N - 1) (split content' (CHR 0x0A))))"

text \<open>The nodes of a tree in the order of a walk that is not cut short.\<close>

fun nodes :: "tsNode \<Rightarrow> tsNode list" where
  "nodes (Identifier t g l) = [Identifier t g l]"
| "nodes (CallExpression e rest g l) =
     CallExpression e rest g l # nodes e @ concat (map nodes rest)"
| "nodes (JsxAttribute n rest g l) =
     JsxAttribute n rest g l # nodes n @ concat (map nodes rest)"
| "nodes (OtherNode children g l) = OtherNode children g l # concat (map nodes children)"

text \<open>
  The depth of a tree: the number of nested calls of \<^verbatim>\<open>visit\<close> that the walk of the whole
  tree needs.
\<close>

fun depth :: "tsNode \<Rightarrow> nat" where
  "depth (Identifier t g l) = 1"
| "depth (CallExpression e rest g l) = Suc (fold max (map depth (e # rest)) 0)"
| "depth (JsxAttribute n rest g l) = Suc (fold max (map depth (n # rest)) 0)"
| "depth (OtherNode children g l) = Suc (fold max (map depth children) 0)"

text \<open>The findings that \<open>visit\<close> pushes at one node.\<close>

definition nodeFindings :: "string \<Rightarrow> tsNode \<Rightarrow> vulnerability list" where
  "nodeFindings path node =
     (if isEvalCall node then [evalFinding path (startLine node + 1)] else [])
     @ (if isDangerouslySetInnerHTML node then [innerHtmlFinding path (startLine node + 1)] else [])"

text \<open>
  The structural findings of a file are those that the structural pass adds, and its
  textual findings those of the two pattern loops of the security agent.
\<close>

definition structuralFindings :: "(string \<Rightarrow> string \<Rightarrow> jsError + tsSourceFile) \<Rightarrow> nat
                                   \<Rightarrow> workspaceFile \<Rightarrow> vulnerability list" where
  "structuralFindings parse room file' = astPass parse room file' []"

definition patternFindings :: "regExp \<Rightarrow> regExp \<Rightarrow> workspaceFile \<Rightarrow> vulnerability list" where
  "patternFindings secrets debugs file' =
     map (\<lambda>match. secretFinding (fsPath file') (lineNumberAt (content file') (index match)))
         (secrets (content file'))
     @ map (\<lambda>match. debugFinding (fsPath file') (lineNumberAt (content file') (index match)))
           (debugs (content file'))"


text \<open>
  A valid dependency manifest: a JSON object whose \<^verbatim>\<open>dependencies\<close> and
  \<^verbatim>\<open>devDependencies\<close>, where it has them, are objects that give every package a version
  string.
\<close>

fun dependencyMap :: "json option \<Rightarrow> bool" where
  "dependencyMap None = True"
| "dependencyMap (Some (JObj props)) =
     list_all (\<lambda>p. case snd p of JStr version \<Rightarrow> True | other \<Rightarrow> False) props"
| "dependencyMap (Some v) = False"

definition validManifest :: "(string \<Rightarrow> jsError + json) \<Rightarrow> string \<Rightarrow> bool" where
  "validManifest parse content' =
     (case parse content' of
        Inr (JObj props) \<Rightarrow>
          dependencyMap (map_of props ''dependencies'')
          \<and> dependencyMap (map_of props ''devDependencies'')
      | other \<Rightarrow> False)"

section \<open>Examples\<close>

text \<open>
  A runtime for the examples: no pattern matches, the TypeScript parser returns an empty
  tree, the stack has room for ten thousand nested calls of \<^verbatim>\<open>visit\<close>, and the JSON parser
  accepts nothing. The examples replace single fields.
\<close>

definition quietRuntime :: runtime where
  "quietRuntime =
     \<lparr> secretRegex = (\<lambda>c. []),
       debugRegex = (\<lambda>c. []),
       piiRegex = (\<lambda>c. []),
       basicLoggingRule = (\<lambda>c. []),
       promptInjectionRegex = (\<lambda>c. []),
       serverDbImports = (\<lambda>c. []),
       createSourceFile = (\<lambda>path c. Inr \<lparr> rootNode = OtherNode [] c 0, parseDiagnostics = [] \<rparr>),
       stackRoom = 10000,
       JSON_parse = (\<lambda>c. Inl SyntaxError) \<rparr>"

text \<open>
  Four manifests: one that is not JSON, \<^verbatim>\<open>null\<close>, an empty array, and one with two
  blacklisted dependencies; and a runtime whose JSON parser reads the last three.
\<close>

definition quoted :: "string \<Rightarrow> string" where
  "quoted s = CHR 0x22 # s @ [CHR 0x22]"

definition manifestText :: string where
  "manifestText =
     ''{ '' @ quoted ''dependencies'' @ '': { '' @ quoted ''request'' @ '': '' @ quoted ''2.88.2''
     @ '', '' @ quoted ''left-pad'' @ '': '' @ quoted ''1.3.0'' @ '' } }''"

definition brokenManifest :: workspaceFile where
  "brokenManifest = \<lparr> uri = ''file:///app/package.json'', fsPath = ''/app/package.json'',
                      content = ''{ dependencies: '' \<rparr>"

definition nullManifest :: workspaceFile where
  "nullManifest = \<lparr> uri = ''file:///app/package.json'', fsPath = ''/app/package.json'',
                    content = ''null'' \<rparr>"

definition arrayManifest :: workspaceFile where
  "arrayManifest = \<lparr> uri = ''file:///app/package.json'', fsPath = ''/app/package.json'',
                     content = ''[]'' \<rparr>"

definition twoDeps :: workspaceFile where
  "twoDeps = \<lparr> uri = ''file:///app/package.json'', fsPath = ''/app/package.json'',
               content = manifestText \<rparr>"

definition jsonRuntime :: runtime where
  "jsonRuntime = quietRuntime
     \<lparr> JSON_parse :=
         (\<lambda>c. if c = ''null'' then Inr JNull
              else if c = ''[]'' then Inr (JArr [])
              else if c = manifestText
              then Inr (JObj [(''dependencies'',
                               JObj [(''request'', JStr ''2.88.2''), (''left-pad'', JStr ''1.3.0'')])])
              else Inl SyntaxError) \<rparr>"



text \<open>
  A call of \<^verbatim>\<open>eval\<close> on the line \<open>l\<close>, counted from 0; a script of two lines whose second
  line calls \<^verbatim>\<open>eval\<close>; a malformed script that calls \<^verbatim>\<open>eval\<close> before its syntax error, for
  which the parser returns a tree and a diagnostic; and a runtime whose parser reads both.
\<close>

definition evalCall :: "nat \<Rightarrow> tsNode" where
  "evalCall l = CallExpression (Identifier ''eval'' ''eval'' l) [Identifier ''x'' ''x'' l] ''eval(x)'' l"

definition evalScript :: workspaceFile where
  "evalScript = \<lparr> uri = ''file:///app/run.ts'', fsPath = ''/app/run.ts'',
                  content = ''// run\<newline>eval(x);'' \<rparr>"

definition evalSource :: tsSourceFile where
  "evalSource =
     \<lparr> rootNode = OtherNode [OtherNode [evalCall 1] ''eval(x);'' 1, OtherNode [] [] 1] ''eval(x);'' 1,
       parseDiagnostics = [] \<rparr>"


definition malformedSource :: tsSourceFile where
  "malformedSource =
     \<lparr> rootNode = OtherNode [OtherNode [evalCall 0] ''eval(x);'' 0,
                             OtherNode [OtherNode [OtherNode [OtherNode [] [] 0] ''('' 0] ''(('' 0]
                               ''((('' 0,
                             OtherNode [] [] 0] ''eval(x); ((('' 0,
       parseDiagnostics = [''Expression expected.''] \<rparr>"

definition scriptRuntime :: runtime where
  "scriptRuntime = quietRuntime
     \<lparr> createSourceFile :=
         (\<lambda>path c. if c = ''// run\<newline>eval(x);'' then Inr evalSource
                    else if c = ''eval(x); ((('' then Inr malformedSource
                    else Inr \<lparr> rootNode = OtherNode [] c 0, parseDiagnostics = [] \<rparr>) \<rparr>"

text \<open>
  A sum of \<open>k + 1\<close> terms that begins with \<open>x\<close>: the tree of \<^verbatim>\<open>x + a + ... + a\<close> nests to the
  left, \<open>k\<close> levels deep. A script whose only statement is such a sum of 20001 terms that
  begins with a call of \<^verbatim>\<open>eval\<close>, its tree (the source texts of the inner nodes are left
  empty), and a runtime whose parser returns that tree.
\<close>

primrec sumChain :: "nat \<Rightarrow> tsNode \<Rightarrow> tsNode" where
  "sumChain 0 x = x"
| "sumChain (Suc k) x =
     OtherNode [sumChain k x, OtherNode [] ''+'' 0, Identifier ''a'' ''a'' 0] [] 0"

definition deepScript :: workspaceFile where
  "deepScript = \<lparr> uri = ''file:///app/deep.ts'', fsPath = ''/app/deep.ts'',
                  content = ''eval(x)'' @ concat (replicate 20000 '' + a'') @ '';'' \<rparr>"

definition deepSource :: tsSourceFile where
  "deepSource =
     \<lparr> rootNode = OtherNode [OtherNode [sumChain 20000 (evalCall 0)] [] 0, OtherNode [] [] 0] [] 0,
       parseDiagnostics = [] \<rparr>"

definition deepRuntime :: runtime where
  "deepRuntime = quietRuntime
     \<lparr> createSourceFile :=
         (\<lambda>path c. if path = ''/app/deep.ts'' then Inr deepSource
                    else Inr \<lparr> rootNode = OtherNode [] c 0, parseDiagnostics = [] \<rparr>) \<rparr>"

section \<open>The newline index of the specification\<close>

text \<open>
  The specification asks for another conversion of offsets into lines than the one of the
  source: a sorted index of the offsets of the line feeds, computed once for a file, and a
  binary search of it for every match. The three definitions that follow are written from
  these words; nothing in the source corresponds to them.
\<close>

definition newlineIndex :: "string \<Rightarrow> nat list" where
  "newlineIndex content' = filter (\<lambda>i. content' ! i = CHR 0x0A) [0 ..< length content']"

text \<open>
  The number of offsets of the index below \<open>x\<close>, by binary search between \<open>lo\<close> and
  \<open>hi\<close>.
\<close>

function lowerBound :: "nat list \<Rightarrow> nat \<Rightarrow> nat \<Rightarrow> nat \<Rightarrow> nat" where
  "lowerBound offsets x lo hi =
     (if lo < hi
      then (let mid = (lo + hi) div 2
            in if offsets ! mid < x then lowerBound offsets x (mid + 1) hi
               else lowerBound offsets x lo mid)
      else lo)"
  by pat_completeness auto
termination
  by (relation "measure (\<lambda>(offsets, x, lo, hi). hi - lo)") auto

definition lineOfOffset :: "nat list \<Rightarrow> nat \<Rightarrow> nat" where
  "lineOfOffset offsets index' = lowerBound offsets index' 0 (length offsets) + 1"

text \<open>
  Running times, as numbers of calls: \<open>T_split\<close> follows the recursion of \<open>split\<close>, which
  reads its argument character by character, and \<open>T_lowerBound\<close> that of \<open>lowerBound\<close>.
  The conversion of the source splits the prefix \<^verbatim>\<open>content.substring(0, match.index)\<close>; the
  copy that \<^verbatim>\<open>substring\<close> makes is not counted.
\<close>

fun T_split :: "string \<Rightarrow> char \<Rightarrow> nat" where
  "T_split [] sep = 1"
| "T_split (c # cs) sep = T_split cs sep + 1"

definition T_lineNumberAt :: "string \<Rightarrow> nat \<Rightarrow> nat" where
  "T_lineNumberAt content' index' = T_split (substring content' 0 index') (CHR 0x0A)"

function T_lowerBound :: "nat list \<Rightarrow> nat \<Rightarrow> nat \<Rightarrow> nat \<Rightarrow> nat" where
  "T_lowerBound offsets x lo hi =
     (if lo < hi
      then (let mid = (lo + hi) div 2
            in if offsets ! mid < x then T_lowerBound offsets x (mid + 1) hi + 1
               else T_lowerBound offsets x lo mid + 1)
      else 1)"
  by pat_completeness auto
termination
  by (relation "measure (\<lambda>(offsets, x, lo, hi). hi - lo)") auto

definition T_lineOfOffset :: "nat list \<Rightarrow> nat \<Rightarrow> nat" where
  "T_lineOfOffset offsets index' = T_lowerBound offsets index' 0 (length offsets)"

text \<open>
  The conversion of a match at offset \<open>index'\<close> is a binary search of the index when it
  takes no more steps than that search.
\<close>

definition searchesIndex :: "string \<Rightarrow> nat \<Rightarrow> bool" where
  "searchesIndex content' index' =
     (T_lineNumberAt content' index' \<le> T_lineOfOffset (newlineIndex content') index')"

text \<open>A content of four lines; its last line begins at offset 30.\<close>

definition fourLines :: string where
  "fourLines = ''import a;\<newline>import b;\<newline>import c;\<newline>console.log(a);''"

section \<open>The fields of the findings\<close>

lemma evalFinding_fields [simp]:
  "id_v (evalFinding p l) = ''eval-usage''" "file (evalFinding p l) = p"
  "line (evalFinding p l) = l" "severity (evalFinding p l) = ERROR"
  by (simp_all add: evalFinding_def)

lemma innerHtmlFinding_fields [simp]:
  "id_v (innerHtmlFinding p l) = ''dangerously-set-inner-html''" "file (innerHtmlFinding p l) = p"
  "line (innerHtmlFinding p l) = l" "severity (innerHtmlFinding p l) = ERROR"
  by (simp_all add: innerHtmlFinding_def)

lemma secretFinding_fields [simp]:
  "id_v (secretFinding p l) = ''env-isolation''" "file (secretFinding p l) = p"
  "line (secretFinding p l) = l" "severity (secretFinding p l) = ERROR"
  by (simp_all add: secretFinding_def)

lemma debugFinding_fields [simp]:
  "id_v (debugFinding p l) = ''debug-exposure''" "file (debugFinding p l) = p"
  "line (debugFinding p l) = l" "severity (debugFinding p l) = WARNING"
  by (simp_all add: debugFinding_def)

lemma blacklistedFinding_fields [simp]:
  "id_v (blacklistedFinding p d) = ''blacklisted-dependency''" "file (blacklistedFinding p d) = p"
  "line (blacklistedFinding p d) = 1" "severity (blacklistedFinding p d) = WARNING"
  by (simp_all add: blacklistedFinding_def)

lemma malformedFinding_fields [simp]:
  "id_v (malformedFinding p) = ''malformed-package-json''" "file (malformedFinding p) = p"
  "line (malformedFinding p) = 1" "severity (malformedFinding p) = INFO"
  by (simp_all add: malformedFinding_def)

lemma piiFinding_fields [simp]:
  "id_v (piiFinding p l) = ''pii-leakage''" "file (piiFinding p l) = p"
  "line (piiFinding p l) = l" "severity (piiFinding p l) = ERROR"
  by (simp_all add: piiFinding_def)

lemma loggingFinding_fields [simp]:
  "id_v (loggingFinding p l m) = ''observability-failure''" "file (loggingFinding p l m) = p"
  "line (loggingFinding p l m) = l" "severity (loggingFinding p l m) = INFO"
  by (simp_all add: loggingFinding_def)

lemma promptInjectionFinding_fields [simp]:
  "id_v (promptInjectionFinding p l) = ''ai-prompt-injection''" "file (promptInjectionFinding p l) = p"
  "line (promptInjectionFinding p l) = l" "severity (promptInjectionFinding p l) = WARNING"
  by (simp_all add: promptInjectionFinding_def)

lemma godObjectFinding_fields [simp]:
  "id_v (godObjectFinding p) = ''architecture-fragility''" "file (godObjectFinding p) = p"
  "line (godObjectFinding p) = 1" "severity (godObjectFinding p) = WARNING"
  by (simp_all add: godObjectFinding_def)

lemma dbImportFinding_fields [simp]:
  "id_v (dbImportFinding p l c) = ''architecture-fragility-db''" "file (dbImportFinding p l c) = p"
  "line (dbImportFinding p l c) = l" "severity (dbImportFinding p l c) = ERROR"
  by (simp_all add: dbImportFinding_def)

section \<open>The scoring agent\<close>

lemma fold_countSeverity:
  "fold countSeverity vs (e, w, i) =
     (e + countOf ERROR vs, w + countOf WARNING vs, i + countOf INFO vs)"
proof (induction vs arbitrary: e w i)
  case Nil
  show ?case by (simp add: countOf_def)
next
  case (Cons v vs)
  show ?case by (cases "severity v") (simp_all add: Cons.IH countOf_def)
qed

lemma scoreDetails_runScoringAgent:
  "scoreDetails (runScoringAgent now vs) =
     \<lparr> totalVulnerabilities = length vs,
       errorCount = countOf ERROR vs,
       warningCount = countOf WARNING vs,
       infoCount = countOf INFO vs,
       finalScore = max 0 (100 - 25 * int (countOf ERROR vs) - 10 * int (countOf WARNING vs)
                            - 2 * int (countOf INFO vs)),
       decision = (if countOf ERROR vs > 0
                      \<or> max 0 (100 - 25 * int (countOf ERROR vs) - 10 * int (countOf WARNING vs)
                            - 2 * int (countOf INFO vs)) < 50
                   then NO_GO else GO) \<rparr>"
  by (simp add: runScoringAgent_def fold_countSeverity Let_def mult.commute)

lemma vulnerabilities_runScoringAgent: "vulnerabilities (runScoringAgent now vs) = vs"
  by (simp add: runScoringAgent_def Let_def split: prod.split)

lemma countOf_partition: "countOf ERROR vs + countOf WARNING vs + countOf INFO vs = length vs"
proof (induction vs)
  case Nil
  show ?case by (simp add: countOf_def)
next
  case (Cons v vs)
  then show ?case by (cases "severity v") (simp_all add: countOf_def)
qed

text \<open>
  Claim C1. For every list of findings \<open>vs\<close> the report of \<open>runScoringAgent\<close> has
  \<open>finalScore = clamp (100 - 25 * errorCount - 10 * warningCount - 2 * infoCount) 0 100\<close>,
  where the three counts are the numbers of findings of severity ERROR, WARNING and INFO.
  The function is total: it is defined by a fold over the list and has no failing branch.
  The empty list scores 100, and two errors, one warning and three notes score 34.
\<close>

theorem runScoringAgent_score:
  "finalScore (scoreDetails (runScoringAgent now vs)) =
      clamp (100 - 25 * int (countOf ERROR vs) - 10 * int (countOf WARNING vs)
               - 2 * int (countOf INFO vs)) 0 100
   \<and> errorCount (scoreDetails (runScoringAgent now vs)) = countOf ERROR vs
   \<and> warningCount (scoreDetails (runScoringAgent now vs)) = countOf WARNING vs
   \<and> infoCount (scoreDetails (runScoringAgent now vs)) = countOf INFO vs
   \<and> finalScore (scoreDetails (runScoringAgent now [])) = 100
   \<and> (countOf ERROR vs = 2 \<and> countOf WARNING vs = 1 \<and> countOf INFO vs = 3
        \<longrightarrow> finalScore (scoreDetails (runScoringAgent now vs)) = 34)"
  by (simp add: scoreDetails_runScoringAgent clamp_def countOf_def)

theorem runScoringAgent_score_witness:
  "countOf ERROR sixFindings = 2 \<and> countOf WARNING sixFindings = 1 \<and> countOf INFO sixFindings = 3
   \<and> finalScore (scoreDetails (runScoringAgent ''2026-01-01T00:00:00.000Z'' sixFindings)) = 34"
  using runScoringAgent_score [of "''2026-01-01T00:00:00.000Z''" sixFindings]
  by (simp add: countOf_def sixFindings_def)

text \<open>
  Claim C2. For every list of findings the decision of the report is NO-GO if and only if
  \<open>errorCount > 0\<close> or the score is below 50. One ERROR finding alone scores 75 and is
  NO-GO all the same; six WARNING findings alone score 40, with no error, and are NO-GO by
  the score.
\<close>

theorem runScoringAgent_decision:
  "(decision (scoreDetails (runScoringAgent now vs)) = NO_GO) =
      (errorCount (scoreDetails (runScoringAgent now vs)) > 0
       \<or> finalScore (scoreDetails (runScoringAgent now vs)) < 50)
   \<and> errorCount (scoreDetails (runScoringAgent now vs)) = countOf ERROR vs
   \<and> finalScore (scoreDetails (runScoringAgent now vs)) =
        clamp (100 - 25 * int (countOf ERROR vs) - 10 * int (countOf WARNING vs)
                 - 2 * int (countOf INFO vs)) 0 100
   \<and> finalScore (scoreDetails (runScoringAgent now [v\<lparr>severity := ERROR\<rparr>])) = 75
   \<and> decision (scoreDetails (runScoringAgent now [v\<lparr>severity := ERROR\<rparr>])) = NO_GO
   \<and> finalScore (scoreDetails (runScoringAgent now
         (map (\<lambda>w. w\<lparr>severity := WARNING\<rparr>) [w1, w2, w3, w4, w5, w6]))) = 40
   \<and> errorCount (scoreDetails (runScoringAgent now
         (map (\<lambda>w. w\<lparr>severity := WARNING\<rparr>) [w1, w2, w3, w4, w5, w6]))) = 0
   \<and> decision (scoreDetails (runScoringAgent now
         (map (\<lambda>w. w\<lparr>severity := WARNING\<rparr>) [w1, w2, w3, w4, w5, w6]))) = NO_GO"
  by (simp add: scoreDetails_runScoringAgent clamp_def countOf_def)

text \<open>
  Claim C7. For every list \<open>A\<close> and every finding \<open>f\<close>, of any severity, the score of
  \<open>A\<close> extended with \<open>f\<close> is not greater than the score of \<open>A\<close>, and when the decision on
  \<open>A\<close> is NO-GO the decision on the extended list is NO-GO too.
\<close>

theorem runScoringAgent_monotone:
  "finalScore (scoreDetails (runScoringAgent now (A @ [f])))
     \<le> finalScore (scoreDetails (runScoringAgent now A))
   \<and> (decision (scoreDetails (runScoringAgent now A)) = NO_GO
        \<longrightarrow> decision (scoreDetails (runScoringAgent now (A @ [f]))) = NO_GO)"
  by (cases "severity f") (auto simp add: scoreDetails_runScoringAgent countOf_def max_def)

theorem runScoringAgent_monotone_witness:
  "decision (scoreDetails (runScoringAgent ''2026-01-01T00:00:00.000Z'' sixFindings)) = NO_GO
   \<and> decision (scoreDetails (runScoringAgent ''2026-01-01T00:00:00.000Z''
         (sixFindings @ [godObjectFinding ''b.ts'']))) = NO_GO
   \<and> finalScore (scoreDetails (runScoringAgent ''2026-01-01T00:00:00.000Z''
         (sixFindings @ [godObjectFinding ''b.ts''])))
      \<le> finalScore (scoreDetails (runScoringAgent ''2026-01-01T00:00:00.000Z'' sixFindings))"
  using runScoringAgent_monotone [of "''2026-01-01T00:00:00.000Z''" sixFindings
      "godObjectFinding ''b.ts''"]
  by (simp add: scoreDetails_runScoringAgent countOf_def sixFindings_def)

text \<open>
  Claim C10. In every report of \<open>runScoringAgent\<close>, \<open>totalVulnerabilities\<close> is the length of
  the array \<open>vulnerabilities\<close> and the sum of the three counts; a finding whose severity is
  neither ERROR nor WARNING is counted in \<open>infoCount\<close>, so the three counts partition the
  list.
\<close>

theorem runScoringAgent_partition:
  "totalVulnerabilities (scoreDetails (runScoringAgent now vs))
      = length (vulnerabilities (runScoringAgent now vs))
   \<and> totalVulnerabilities (scoreDetails (runScoringAgent now vs))
      = errorCount (scoreDetails (runScoringAgent now vs))
        + warningCount (scoreDetails (runScoringAgent now vs))
        + infoCount (scoreDetails (runScoringAgent now vs))
   \<and> errorCount (scoreDetails (runScoringAgent now vs))
      = length (filter (\<lambda>v. severity v = ERROR) vs)
   \<and> warningCount (scoreDetails (runScoringAgent now vs))
      = length (filter (\<lambda>v. severity v = WARNING) vs)
   \<and> infoCount (scoreDetails (runScoringAgent now vs))
      = length (filter (\<lambda>v. severity v \<noteq> ERROR \<and> severity v \<noteq> WARNING) vs)"
proof -
  have other: "(s \<noteq> ERROR \<and> s \<noteq> WARNING) = (s = INFO)" for s
    by (cases s) simp_all
  show ?thesis
    by (simp add: scoreDetails_runScoringAgent vulnerabilities_runScoringAgent other
          countOf_partition flip: countOf_def)
qed

section \<open>Pushing in a loop\<close>

lemma fold_push: "fold (\<lambda>x acc. acc @ [g x]) xs acc = acc @ map g xs"
  by (induction xs arbitrary: acc) simp_all

lemma fold_push_if:
  "fold (\<lambda>x acc. if p x then acc @ [g x] else acc) xs acc = acc @ map g (filter p xs)"
  by (induction xs arbitrary: acc) simp_all

lemma fold_collect:
  "(\<And>x acc. x \<in> set xs \<Longrightarrow> f x acc = acc @ g x) \<Longrightarrow> fold f xs acc = acc @ concat (map g xs)"
  by (induction xs arbitrary: acc) simp_all

lemma fold_set_inv:
  assumes "\<And>x acc v. v \<in> set (f x acc) \<Longrightarrow> v \<in> set acc \<or> Q v"
  shows "v \<in> set (fold f xs acc) \<Longrightarrow> v \<in> set acc \<or> Q v"
proof (induction xs arbitrary: acc)
  case Nil
  then show ?case by simp
next
  case (Cons x xs)
  from Cons.IH [of "f x acc"] Cons.prems have "v \<in> set (f x acc) \<or> Q v" by simp
  with assms show ?case by blast
qed

section \<open>The orchestrator removes duplicates\<close>

lemma findIndex_none: "(findIndex p xs = - 1) = (\<forall>x\<in>set xs. \<not> p x)"
  and findIndex_range: "findIndex p xs = - 1 \<or> (0 \<le> findIndex p xs \<and> findIndex p xs < int (length xs))"
  by (induction xs) (auto simp: Let_def)

lemma findIndex_ge: "- 1 \<le> findIndex p xs"
  using findIndex_range [of p xs] by auto

lemma findIndex_append:
  "findIndex p (xs @ ys) =
     (if \<exists>x\<in>set xs. p x then findIndex p xs
      else if findIndex p ys = - 1 then - 1 else int (length xs) + findIndex p ys)"
proof (induction xs)
  case Nil
  show ?case by simp
next
  case (Cons x xs)
  show ?case
    using findIndex_range [of p ys] findIndex_none [of p ys]
    by (auto simp: Cons.IH Let_def)
qed

lemma filterIndexed_snoc:
  "filterIndexed cb (xs @ [x]) =
     map fst (filter (\<lambda>(e, i). cb e i (xs @ [x])) (zip xs [0 ..< length xs]))
     @ (if cb x (length xs) (xs @ [x]) then [x] else [])"
  by (simp add: filterIndexed_def)

lemma uniqueFindings_snoc:
  "uniqueFindings (xs @ [x]) =
     uniqueFindings xs @ (if dedupKey x \<in> dedupKey ` set xs then [] else [x])"
proof -
  have keep: "filter (\<lambda>(e, i). int i = findIndex (\<lambda>t. id_v t = id_v e \<and> file t = file e \<and> line t = line e) (xs @ [x]))
                (zip xs [0 ..< length xs])
            = filter (\<lambda>(e, i). int i = findIndex (\<lambda>t. id_v t = id_v e \<and> file t = file e \<and> line t = line e) xs)
                (zip xs [0 ..< length xs])"
  proof (rule filter_cong [OF refl])
    fix ei assume "ei \<in> set (zip xs [0 ..< length xs])"
    then have "fst ei \<in> set xs" by (metis prod.collapse set_zip_leftD)
    then show "(case ei of (e, i) \<Rightarrow> int i = findIndex (\<lambda>t. id_v t = id_v e \<and> file t = file e \<and> line t = line e) (xs @ [x]))
          = (case ei of (e, i) \<Rightarrow> int i = findIndex (\<lambda>t. id_v t = id_v e \<and> file t = file e \<and> line t = line e) xs)"
      by (cases ei) (auto simp: findIndex_append)
  qed
  have present: "(\<exists>t\<in>set xs. id_v t = id_v x \<and> file t = file x \<and> line t = line x)
      = (dedupKey x \<in> dedupKey ` set xs)"
    unfolding dedupKey_def image_iff prod.inject by metis
  have last: "(int (length xs) = findIndex (\<lambda>t. id_v t = id_v x \<and> file t = file x \<and> line t = line x) (xs @ [x]))
      = (dedupKey x \<notin> dedupKey ` set xs)"
    (is "(_ = findIndex ?P _) = _")
  proof (cases "\<exists>t\<in>set xs. ?P t")
    case True
    then have "findIndex ?P xs \<noteq> - 1"
      unfolding findIndex_none by blast
    with findIndex_range [of ?P xs] have "findIndex ?P xs < int (length xs)"
      by simp
    moreover from True have "findIndex ?P (xs @ [x]) = findIndex ?P xs"
      unfolding findIndex_append by (simp only: if_True)
    ultimately have "int (length xs) \<noteq> findIndex ?P (xs @ [x])"
      by simp
    with True show ?thesis
      unfolding present [symmetric] by blast
  next
    case False
    then have "findIndex ?P (xs @ [x]) = int (length xs)"
      unfolding findIndex_append by (simp only: if_False) simp
    with False show ?thesis
      unfolding present [symmetric] by simp
  qed
  show ?thesis
    unfolding uniqueFindings_def filterIndexed_snoc keep last
    by (simp add: filterIndexed_def)
qed

lemma uniqueFindings_Nil: "uniqueFindings [] = []"
  by (simp add: uniqueFindings_def filterIndexed_def)

lemma set_uniqueFindings_subset: "set (uniqueFindings xs) \<subseteq> set xs"
  by (induction xs rule: rev_induct) (auto simp: uniqueFindings_Nil uniqueFindings_snoc)

lemma keys_uniqueFindings: "dedupKey ` set (uniqueFindings xs) = dedupKey ` set xs"
  by (induction xs rule: rev_induct) (auto simp: uniqueFindings_Nil uniqueFindings_snoc)

lemma distinct_keys_uniqueFindings: "distinct (map dedupKey (uniqueFindings xs))"
  by (induction xs rule: rev_induct)
     (auto simp: uniqueFindings_Nil uniqueFindings_snoc keys_uniqueFindings)

lemma find_append':
  "find p (xs @ ys) = (case find p xs of None \<Rightarrow> find p ys | Some x \<Rightarrow> Some x)"
  by (induction xs) auto

lemma uniqueFindings_first:
  "v \<in> set (uniqueFindings xs) \<Longrightarrow> find (\<lambda>t. dedupKey t = dedupKey v) xs = Some v"
proof (induction xs rule: rev_induct)
  case Nil
  then show ?case by (simp add: uniqueFindings_Nil)
next
  case (snoc x xs)
  show ?case
  proof (cases "v \<in> set (uniqueFindings xs)")
    case True
    with snoc.IH show ?thesis by (simp add: find_append')
  next
    case False
    with snoc.prems have vx: "v = x" and new: "dedupKey x \<notin> dedupKey ` set xs"
      by (auto simp: uniqueFindings_snoc split: if_splits)
    from new have "find (\<lambda>t. dedupKey t = dedupKey x) xs = None"
      unfolding find_None_iff by (metis imageI)
    with vx show ?thesis by (simp add: find_append')
  qed
qed

lemma count_key_uniqueFindings:
  "length (filter (\<lambda>v. dedupKey v = k) (uniqueFindings xs)) = (if k \<in> dedupKey ` set xs then 1 else 0)"
proof -
  have "length (filter (\<lambda>v. dedupKey v = k) ys) = (if k \<in> dedupKey ` set ys then 1 else 0)"
    if "distinct (map dedupKey ys)" for ys
    using that by (induction ys) auto
  from this [OF distinct_keys_uniqueFindings] show ?thesis
    by (simp add: keys_uniqueFindings)
qed


text \<open>
  Claim C3. For every list of files the array \<open>vulnerabilities\<close> of the report of \<open>runAudit\<close>
  is the concatenation of the findings of the Security, Dependency, Compliance, AiRisk and
  Architecture agents, in this order, from which every finding is removed that has the key
  (id, file, line) of an earlier one: no two findings of the report share a key, every key
  of the concatenation is the key of exactly one finding of the report, and that finding
  is the first of the concatenation with its key.
\<close>

theorem runAudit_deduplicates:
  "vulnerabilities (runAudit rt now files) = uniqueFindings (allFindings rt files)
   \<and> allFindings rt files =
         runSecurityAgent (secretRegex rt) (debugRegex rt) (createSourceFile rt)
           (stackRoom rt) files
         @ runDependencyAgent (JSON_parse rt) files
         @ runComplianceAgent (piiRegex rt) (basicLoggingRule rt) files
         @ runAiRiskAgent (promptInjectionRegex rt) files
         @ runArchitectureAgent (serverDbImports rt) files
   \<and> distinct (map dedupKey (vulnerabilities (runAudit rt now files)))
   \<and> dedupKey ` set (vulnerabilities (runAudit rt now files))
       = dedupKey ` set (allFindings rt files)
   \<and> (\<forall>v\<in>set (vulnerabilities (runAudit rt now files)).
          find (\<lambda>t. dedupKey t = dedupKey v) (allFindings rt files) = Some v)
   \<and> (\<forall>k. length (filter (\<lambda>v. dedupKey v = k) (vulnerabilities (runAudit rt now files)))
            = (if k \<in> dedupKey ` set (allFindings rt files) then 1 else 0))"
proof -
  have report: "vulnerabilities (runAudit rt now files) = uniqueFindings (allFindings rt files)"
    by (simp add: runAudit_def vulnerabilities_runScoringAgent)
  have order: "allFindings rt files =
         runSecurityAgent (secretRegex rt) (debugRegex rt) (createSourceFile rt)
           (stackRoom rt) files
         @ runDependencyAgent (JSON_parse rt) files
         @ runComplianceAgent (piiRegex rt) (basicLoggingRule rt) files
         @ runAiRiskAgent (promptInjectionRegex rt) files
         @ runArchitectureAgent (serverDbImports rt) files"
    by (simp add: allFindings_def Let_def)
  show ?thesis
    unfolding report
    using order distinct_keys_uniqueFindings [of "allFindings rt files"]
      keys_uniqueFindings [of "allFindings rt files"]
      uniqueFindings_first [of _ "allFindings rt files"]
      count_key_uniqueFindings [of _ "allFindings rt files"]
    by blast
qed

lemma isArrayIndex_names [simp]:
  "\<not> isArrayIndex ''request''" "\<not> isArrayIndex ''left-pad''"
  by (simp_all add: isArrayIndex_def)

lemma deps_twoDeps:
  "readDeps (JSON_parse jsonRuntime) (content twoDeps)
     = Inr [(''request'', JStr ''2.88.2''), (''left-pad'', JStr ''1.3.0'')]"
  by (simp add: readDeps_def jsonRuntime_def quietRuntime_def twoDeps_def manifestText_def
        quoted_def objectSpread_def ownProperties_def)

lemma allFindings_twoDeps:
  "allFindings jsonRuntime [twoDeps]
     = [blacklistedFinding ''/app/package.json'' ''request'',
        blacklistedFinding ''/app/package.json'' ''left-pad'']"
proof -
  have ext: "\<not> matchesExt exts ''/app/package.json''"
    if "exts = [''ts'', ''js'', ''jsx'', ''tsx''] \<or> exts = [''ts'', ''js'', ''jsx'', ''tsx'', ''py'']
        \<or> exts = [''ts'', ''js'', ''py''] \<or> exts = [''tsx'', ''jsx'']" for exts
    using that by (auto simp: matchesExt_def endsWith_def lower_def)
  have dep: "runDependencyAgent (JSON_parse jsonRuntime) [twoDeps]
      = [blacklistedFinding ''/app/package.json'' ''request'',
         blacklistedFinding ''/app/package.json'' ''left-pad'']"
    by (simp add: runDependencyAgent_def dependencyFile_def deps_twoDeps objectKeys_def
          ownProperties_def blacklistedDeps_def)
       (simp add: twoDeps_def endsWith_def)
  show ?thesis
    by (simp add: allFindings_def dep)
       (simp add: jsonRuntime_def quietRuntime_def twoDeps_def manifestText_def quoted_def ext
          runSecurityAgent_def securityFile_def astPass_def pushSecrets_def pushDebug_def
          runComplianceAgent_def complianceFile_def
          runAiRiskAgent_def aiRiskFile_def runArchitectureAgent_def architectureFile_def)
qed

theorem runAudit_deduplicates_witness:
  "allFindings jsonRuntime [twoDeps]
     = [blacklistedFinding ''/app/package.json'' ''request'',
        blacklistedFinding ''/app/package.json'' ''left-pad'']
   \<and> dedupKey (blacklistedFinding ''/app/package.json'' ''request'')
       = dedupKey (blacklistedFinding ''/app/package.json'' ''left-pad'')
   \<and> vulnerabilities (runAudit jsonRuntime ''2026-01-01T00:00:00.000Z'' [twoDeps])
       = [blacklistedFinding ''/app/package.json'' ''request'']
   \<and> find (\<lambda>t. dedupKey t = dedupKey (blacklistedFinding ''/app/package.json'' ''request''))
          (allFindings jsonRuntime [twoDeps])
       = Some (blacklistedFinding ''/app/package.json'' ''request'')"
proof -
  have report: "vulnerabilities (runAudit jsonRuntime ''2026-01-01T00:00:00.000Z'' [twoDeps])
       = [blacklistedFinding ''/app/package.json'' ''request'']"
    by (simp add: runAudit_def vulnerabilities_runScoringAgent allFindings_twoDeps
          uniqueFindings_def filterIndexed_def)
  from runAudit_deduplicates [of jsonRuntime "''2026-01-01T00:00:00.000Z''" "[twoDeps]"]
  have "\<forall>v\<in>set (vulnerabilities (runAudit jsonRuntime ''2026-01-01T00:00:00.000Z'' [twoDeps])).
          find (\<lambda>t. dedupKey t = dedupKey v) (allFindings jsonRuntime [twoDeps]) = Some v"
    by blast
  then show ?thesis
    unfolding report by (simp add: allFindings_twoDeps dedupKey_def)
qed

section \<open>From the offset of a match to its line\<close>

lemma split_not_Nil: "split s sep \<noteq> []"
  by (induction s) (auto split: list.splits)

lemma length_split_Cons:
  "length (split (c # cs) sep)
     = (if c = sep then Suc (length (split cs sep)) else length (split cs sep))"
  using split_not_Nil [of cs sep] by (auto split: list.splits)

lemma length_split: "length (split s sep) = Suc (length (filter (\<lambda>c. c = sep) s))"
proof (induction s)
  case Nil
  show ?case by simp
next
  case (Cons c cs)
  then show ?case by (simp only: length_split_Cons) simp
qed


text \<open>
  The offset \<open>lineStart content' N\<close> is where line \<open>N\<close> begins: what follows it are the
  lines from \<open>N\<close> on.
\<close>

lemma split_drop_lineStart:
  "k < length (split s sep) \<Longrightarrow>
     split (drop (sum_list (map (\<lambda>l. length l + 1) (take k (split s sep)))) s) sep
       = drop k (split s sep)"
proof (induction s arbitrary: k)
  case Nil
  then show ?case by simp
next
  case (Cons c cs)
  show ?case
  proof (cases k)
    case 0
    then show ?thesis by simp
  next
    case (Suc j)
    show ?thesis
    proof (cases "c = sep")
      case True
      with Cons.prems Suc have "j < length (split cs sep)" by simp
      from Cons.IH [OF this] True Suc show ?thesis by simp
    next
      case False
      obtain p ps where ps: "split cs sep = p # ps"
        using split_not_Nil [of cs sep] by (cases "split cs sep") auto
      from Cons.prems False have "k < length (split cs sep)"
        by (simp only: length_split_Cons if_False)
      from Cons.IH [OF this] have
        "split (drop (sum_list (map (\<lambda>l. length l + 1) (take k (split cs sep)))) cs) sep
           = drop k (split cs sep)" .
      moreover have "sum_list (map (\<lambda>l. length l + 1) (take k (split (c # cs) sep)))
          = Suc (sum_list (map (\<lambda>l. length l + 1) (take k (split cs sep))))"
        using False ps Suc by simp
      moreover have "drop k (split (c # cs) sep) = drop k (split cs sep)"
        using False ps Suc by simp
      ultimately show ?thesis
        by (simp only: drop_Suc_Cons)
    qed
  qed
qed

lemma lineStart_begins_line:
  "1 \<le> N \<Longrightarrow> N \<le> length (split content' (CHR 0x0A)) \<Longrightarrow>
     split (drop (lineStart content' N) content') (CHR 0x0A)
       = drop (N - 1) (split content' (CHR 0x0A))"
  using split_drop_lineStart [of "N - 1" content' "CHR 0x0A"] by (simp add: lineStart_def)



section \<open>The security agent\<close>

declare visit.simps [simp del]

lemma nodes_children: "nodes node = node # concat (map nodes (forEachChild node))"
  by (cases node) simp_all

lemma fold_max_start: "a \<le> fold max xs (a::nat)"
proof (induction xs arbitrary: a)
  case Nil
  show ?case by simp
next
  case (Cons y ys)
  have "a \<le> max y a" by simp
  also have "\<dots> \<le> fold max ys (max y a)" by (rule Cons.IH)
  finally show ?case by simp
qed

lemma fold_max_ge: "x \<in> set xs \<Longrightarrow> x \<le> fold max xs (a::nat)"
proof (induction xs arbitrary: a)
  case Nil
  then show ?case by simp
next
  case (Cons y ys)
  show ?case
  proof (cases "x = y")
    case True
    have "y \<le> max y a" by simp
    also have "\<dots> \<le> fold max ys (max y a)" by (rule fold_max_start)
    finally show ?thesis using True by simp
  next
    case False
    with Cons.prems have "x \<in> set ys" by simp
    from Cons.IH [OF this] show ?thesis by simp
  qed
qed

lemma depth_children:
  "depth node = Suc (fold max (map depth (forEachChild node)) 0)"
  by (cases node) simp_all

lemma depth_child: "c \<in> set (forEachChild node) \<Longrightarrow> Suc (depth c) \<le> depth node"
  unfolding depth_children [of node] by (simp add: fold_max_ge)

lemma visit_step:
  "visit room path node st =
     (if room = 0 then (st, Some RangeError)
      else visitChildren (room - 1) path (forEachChild node)
             (fst st @ nodeFindings path node,
              (if isDangerouslySetInnerHTML node then {''dangerously-set-inner-html''} else {})
              \<union> (if isEvalCall node then {''eval-usage''} else {}) \<union> snd st))"
  by (cases st) (simp add: visit.simps nodeFindings_def Let_def)

lemma visitChildren_Cons:
  "visitChildren room path (c # cs) st =
     (if snd (visit room path c st) = None
      then visitChildren room path cs (fst (visit room path c st))
      else visit room path c st)"
  by (cases "visit room path c st") (auto split: option.splits)

declare visitChildren.simps(2) [simp del]

text \<open>The findings of a walk that has room for the whole tree.\<close>

lemma visitChildren_complete:
  assumes "\<And>c st. c \<in> set cs \<Longrightarrow>
             fst (fst (visit room path c st)) = fst st @ F c \<and> snd (visit room path c st) = None"
  shows "fst (fst (visitChildren room path cs st)) = fst st @ concat (map F cs)
         \<and> snd (visitChildren room path cs st) = None"
  using assms
proof (induction cs arbitrary: st)
  case Nil
  show ?case by simp
next
  case (Cons c cs)
  from Cons.prems [of c st] have c: "fst (fst (visit room path c st)) = fst st @ F c"
    "snd (visit room path c st) = None" by simp_all
  from Cons.IH [of "fst (visit room path c st)"] Cons.prems
  have "fst (fst (visitChildren room path cs (fst (visit room path c st))))
          = fst (fst (visit room path c st)) @ concat (map F cs)
        \<and> snd (visitChildren room path cs (fst (visit room path c st))) = None"
    by simp
  with c show ?case by (simp add: visitChildren_Cons)
qed

lemma visit_complete:
  "depth node \<le> room \<Longrightarrow>
     fst (fst (visit room path node st)) = fst st @ concat (map (nodeFindings path) (nodes node))
     \<and> snd (visit room path node st) = None"
proof (induction room arbitrary: node st)
  case 0
  then show ?case by (simp add: depth_children [of node])
next
  case (Suc room)
  have "fst (fst (visitChildren room path (forEachChild node) st'))
          = fst st' @ concat (map (\<lambda>c. concat (map (nodeFindings path) (nodes c)))
                               (forEachChild node))
        \<and> snd (visitChildren room path (forEachChild node) st') = None" for st'
  proof (rule visitChildren_complete)
    fix c st assume "c \<in> set (forEachChild node)"
    from depth_child [OF this] Suc.prems have "depth c \<le> room" by simp
    then show "fst (fst (visit room path c st))
          = fst st @ concat (map (nodeFindings path) (nodes c))
        \<and> snd (visit room path c st) = None"
      by (rule Suc.IH)
  qed
  moreover have "concat (map (\<lambda>c. concat (map (nodeFindings path) (nodes c))) cs)
      = concat (map (nodeFindings path) (concat (map nodes cs)))" for cs
    by (induction cs) simp_all
  ultimately show ?case
    by (subst nodes_children) (simp add: visit_step [of "Suc room"])
qed

text \<open>
  Whatever the state at the beginning of a walk, the walk pushes the same findings and
  ends the same way.
\<close>

lemma visitChildren_state:
  assumes "\<And>c. c \<in> set cs \<Longrightarrow>
             \<exists>ws e. \<forall>st. fst (fst (visit room path c st)) = fst st @ ws
                          \<and> snd (visit room path c st) = e"
  shows "\<exists>ws e. \<forall>st. fst (fst (visitChildren room path cs st)) = fst st @ ws
                      \<and> snd (visitChildren room path cs st) = e"
  using assms
proof (induction cs)
  case Nil
  show ?case by simp
next
  case (Cons c cs)
  from Cons.prems [of c] obtain ws e
    where c: "\<And>st. fst (fst (visit room path c st)) = fst st @ ws"
             "\<And>st. snd (visit room path c st) = e"
    by auto
  from Cons.IH Cons.prems obtain ws' e'
    where cs: "\<And>st. fst (fst (visitChildren room path cs st)) = fst st @ ws'"
              "\<And>st. snd (visitChildren room path cs st) = e'"
    by auto
  show ?case
  proof (cases e)
    case None
    with c cs have "\<forall>st. fst (fst (visitChildren room path (c # cs) st)) = fst st @ (ws @ ws')
        \<and> snd (visitChildren room path (c # cs) st) = e'"
      by (simp add: visitChildren_Cons)
    then show ?thesis by blast
  next
    case (Some err)
    with c have "\<forall>st. fst (fst (visitChildren room path (c # cs) st)) = fst st @ ws
        \<and> snd (visitChildren room path (c # cs) st) = e"
      by (simp add: visitChildren_Cons)
    then show ?thesis by blast
  qed
qed

lemma visit_state:
  "\<exists>ws e. \<forall>st. fst (fst (visit room path node st)) = fst st @ ws
              \<and> snd (visit room path node st) = e"
proof (induction room arbitrary: node)
  case 0
  have "\<forall>st. fst (fst (visit 0 path node st)) = fst st @ []
      \<and> snd (visit 0 path node st) = Some RangeError"
    by (simp add: visit_step)
  then show ?case by blast
next
  case (Suc room)
  from visitChildren_state [of "forEachChild node" room path] Suc.IH obtain ws e
    where cs: "\<And>st. fst (fst (visitChildren room path (forEachChild node) st)) = fst st @ ws"
              "\<And>st. snd (visitChildren room path (forEachChild node) st) = e"
    by blast
  have "\<forall>st. fst (fst (visit (Suc room) path node st)) = fst st @ (nodeFindings path node @ ws)
      \<and> snd (visit (Suc room) path node st) = e"
    by (simp add: visit_step [of "Suc room"] cs)
  then show ?case by blast
qed

lemma visit_from_empty:
  "fst (fst (visit room path node (findings, keys)))
     = findings @ fst (fst (visit room path node ([], {})))"
proof -
  from visit_state [of room path node] obtain ws e
    where "\<And>st. fst (fst (visit room path node st)) = fst st @ ws"
    by blast
  from this [of "(findings, keys)"] this [of "([], {})"] show ?thesis by simp
qed

text \<open>A walk, cut short or not, pushes only findings of nodes of the tree.\<close>

lemma visitChildren_subset:
  assumes "\<And>c st. c \<in> set cs \<Longrightarrow> v \<in> set (fst (fst (visit room path c st)))
             \<Longrightarrow> v \<in> set (fst st) \<or> G c"
    and "v \<in> set (fst (fst (visitChildren room path cs st)))"
  shows "v \<in> set (fst st) \<or> (\<exists>c\<in>set cs. G c)"
  using assms
proof (induction cs arbitrary: st)
  case Nil
  then show ?case by simp
next
  case (Cons c cs)
  show ?case
  proof (cases "snd (visit room path c st) = None")
    case True
    with Cons.prems(2) have "v \<in> set (fst (fst (visitChildren room path cs (fst (visit room path c st)))))"
      by (simp add: visitChildren_Cons)
    from Cons.IH [OF _ this] Cons.prems(1)
    have "v \<in> set (fst (fst (visit room path c st))) \<or> (\<exists>c\<in>set cs. G c)"
      by simp
    with Cons.prems(1) [of c st] show ?thesis by auto
  next
    case False
    with Cons.prems(2) have "v \<in> set (fst (fst (visit room path c st)))"
      by (simp add: visitChildren_Cons)
    with Cons.prems(1) [of c st] show ?thesis by auto
  qed
qed

lemma visit_subset:
  "v \<in> set (fst (fst (visit room path node st)))
     \<Longrightarrow> v \<in> set (fst st) \<or> (\<exists>m\<in>set (nodes node). v \<in> set (nodeFindings path m))"
proof (induction room arbitrary: node st)
  case 0
  then show ?case by (simp add: visit_step)
next
  case (Suc room)
  let ?st = "(fst st @ nodeFindings path node,
              (if isDangerouslySetInnerHTML node then {''dangerously-set-inner-html''} else {})
              \<union> (if isEvalCall node then {''eval-usage''} else {}) \<union> snd st)"
  from Suc.prems have "v \<in> set (fst (fst (visitChildren room path (forEachChild node) ?st)))"
    by (simp add: visit_step [of "Suc room"])
  from visitChildren_subset [where G = "\<lambda>c. \<exists>m\<in>set (nodes c). v \<in> set (nodeFindings path m)",
      OF _ this] Suc.IH
  have "v \<in> set (fst ?st) \<or> (\<exists>c\<in>set (forEachChild node). \<exists>m\<in>set (nodes c). v \<in> set (nodeFindings path m))"
    by blast
  then show ?case
    by (subst nodes_children) auto
qed


lemma astPass_findings:
  "astPass parse room f findings
     = (if matchesExt [''ts'', ''js'', ''jsx'', ''tsx''] (fsPath f)
        then (case parse (fsPath f) (content f) of
                Inr sourceFile \<Rightarrow> fst (fst (visit room (fsPath f) (rootNode sourceFile) (findings, {})))
              | Inl err \<Rightarrow> findings)
        else findings)"
  by (simp add: astPass_def split: sum.split prod.split option.split)

lemma astPass_structural:
  "astPass parse room f findings = findings @ structuralFindings parse room f"
  unfolding structuralFindings_def astPass_findings
  by (simp add: visit_from_empty [of room "fsPath f" _ findings] split: sum.split)


lemma structural_complete:
  assumes "matchesExt [''ts'', ''js'', ''jsx'', ''tsx''] (fsPath f)"
    and "parse (fsPath f) (content f) = Inr sourceFile"
    and "depth (rootNode sourceFile) \<le> room"
  shows "structuralFindings parse room f
           = concat (map (nodeFindings (fsPath f)) (nodes (rootNode sourceFile)))"
  using assms visit_complete [OF assms(3), of "fsPath f" "([], {})"]
  by (simp add: structuralFindings_def astPass_findings)

lemma securityFile_findings:
  "securityFile sr dr parse room f findings
     = findings @ structuralFindings parse room f @ patternFindings sr dr f"
  by (simp add: securityFile_def pushDebug_def pushSecrets_def fold_push astPass_structural
        patternFindings_def)

lemma runSecurityAgent_files:
  "runSecurityAgent sr dr parse room files
     = concat (map (\<lambda>f. structuralFindings parse room f @ patternFindings sr dr f) files)"
  unfolding runSecurityAgent_def
  by (simp add: fold_collect [where g = "\<lambda>f. structuralFindings parse room f @ patternFindings sr dr f"]
        securityFile_findings)





section \<open>The dependency agent\<close>

lemma readDeps_throws:
  "(readDeps parse c = Inl err) = (parse c = Inl err \<or> (parse c = Inr JNull \<and> err = TypeError))"
proof (cases "parse c")
  case (Inl e)
  then show ?thesis by (simp add: readDeps_def)
next
  case (Inr pkg)
  then show ?thesis by (cases pkg) (auto simp add: readDeps_def)
qed

lemma dependencyFile_findings:
  "dependencyFile parse f findings = findings @ dependencyFile parse f []"
  by (simp add: dependencyFile_def fold_push_if split: sum.split)

lemma runDependencyAgent_files:
  "runDependencyAgent parse files = concat (map (\<lambda>f. dependencyFile parse f []) files)"
  unfolding runDependencyAgent_def
  by (rule fold_collect [where acc = "[]", simplified]) (rule dependencyFile_findings)

lemma parsed_manifest_not_object:
  assumes "endsWith (fsPath f) ''package.json''"
    and "parse (content f) = Inr pkg" and "\<forall>props. pkg \<noteq> JObj props" and "pkg \<noteq> JNull"
  shows "dependencyFile parse f findings = findings"
  using assms
  by (cases pkg) (simp_all add: dependencyFile_def readDeps_def objectSpread_def objectKeys_def
        ownProperties_def)

lemma dependencyFile_ids:
  assumes "v \<in> set (dependencyFile parse f [])" and "readDeps parse (content f) = Inr deps"
  shows "id_v v = ''blacklisted-dependency''"
  using assms by (auto simp: dependencyFile_def fold_push_if split: if_splits)

text \<open>
  Claim C6, as the source has it. For a file whose path ends with \<^verbatim>\<open>package.json\<close>: when
  \<^verbatim>\<open>JSON.parse\<close> throws on the content, or returns \<^verbatim>\<open>null\<close>, the dependency agent does not
  throw; it pushes exactly one finding for the file, with id \<^verbatim>\<open>malformed-package-json\<close>,
  severity INFO and line 1, and goes on with the files that follow. When \<^verbatim>\<open>JSON.parse\<close>
  returns any other value, the agent pushes no such finding: every finding of the file
  is one of a blacklisted dependency, and a value that is not an object gives no finding
  at all.
\<close>

theorem malformed_manifest:
  assumes "endsWith (fsPath f) ''package.json''"
  shows "(parse (content f) = Inl err \<or> parse (content f) = Inr JNull \<longrightarrow>
            dependencyFile parse f findings = findings @ [malformedFinding (fsPath f)]
          \<and> runDependencyAgent parse (before @ f # after)
              = runDependencyAgent parse before @ [malformedFinding (fsPath f)]
                @ runDependencyAgent parse after)
       \<and> (parse (content f) = Inr pkg \<and> pkg \<noteq> JNull \<longrightarrow>
            (\<forall>v\<in>set (dependencyFile parse f []). id_v v = ''blacklisted-dependency'')
          \<and> ((\<forall>props. pkg \<noteq> JObj props) \<longrightarrow> dependencyFile parse f findings = findings))
       \<and> id_v (malformedFinding (fsPath f)) = ''malformed-package-json''
       \<and> severity (malformedFinding (fsPath f)) = INFO
       \<and> line (malformedFinding (fsPath f)) = 1
       \<and> file (malformedFinding (fsPath f)) = fsPath f"
proof -
  have malformed: "dependencyFile parse f findings = findings @ [malformedFinding (fsPath f)]
      \<and> runDependencyAgent parse (before @ f # after)
          = runDependencyAgent parse before @ [malformedFinding (fsPath f)]
            @ runDependencyAgent parse after"
    if "parse (content f) = Inl err \<or> parse (content f) = Inr JNull"
  proof -
    from that obtain e where "readDeps parse (content f) = Inl e"
      unfolding readDeps_throws by blast
    with assms have "dependencyFile parse f acc = acc @ [malformedFinding (fsPath f)]" for acc
      by (simp add: dependencyFile_def)
    then show ?thesis
      by (simp add: runDependencyAgent_files)
  qed
  have parsed: "(\<forall>v\<in>set (dependencyFile parse f []). id_v v = ''blacklisted-dependency'')
      \<and> ((\<forall>props. pkg \<noteq> JObj props) \<longrightarrow> dependencyFile parse f findings = findings)"
    if "parse (content f) = Inr pkg \<and> pkg \<noteq> JNull"
  proof -
    have "\<not> (\<exists>e. readDeps parse (content f) = Inl e)"
      unfolding readDeps_throws using that by simp
    then obtain deps where "readDeps parse (content f) = Inr deps"
      by (cases "readDeps parse (content f)") auto
    then have "\<forall>v\<in>set (dependencyFile parse f []). id_v v = ''blacklisted-dependency''"
      using dependencyFile_ids by blast
    moreover have "dependencyFile parse f findings = findings" if "\<forall>props. pkg \<noteq> JObj props"
      using parsed_manifest_not_object [OF assms _ that] \<open>parse (content f) = Inr pkg \<and> pkg \<noteq> JNull\<close>
      by blast
    ultimately show ?thesis by blast
  qed
  from malformed parsed show ?thesis
    by simp
qed

lemma endsWith_manifest: "endsWith ''/app/package.json'' ''package.json''"
  by (simp add: endsWith_def)

theorem malformed_manifest_witness:
  "endsWith (fsPath brokenManifest) ''package.json''
   \<and> JSON_parse jsonRuntime (content brokenManifest) = Inl SyntaxError
   \<and> runDependencyAgent (JSON_parse jsonRuntime) [brokenManifest]
       = [malformedFinding ''/app/package.json'']
   \<and> JSON_parse jsonRuntime (content nullManifest) = Inr JNull
   \<and> runDependencyAgent (JSON_parse jsonRuntime) [nullManifest]
       = [malformedFinding ''/app/package.json'']
   \<and> JSON_parse jsonRuntime (content arrayManifest) = Inr (JArr [])
   \<and> runDependencyAgent (JSON_parse jsonRuntime) [arrayManifest] = []"
proof -
  have paths: "endsWith (fsPath brokenManifest) ''package.json''"
    "endsWith (fsPath nullManifest) ''package.json''"
    "endsWith (fsPath arrayManifest) ''package.json''"
    by (simp_all add: brokenManifest_def nullManifest_def arrayManifest_def endsWith_manifest)
  have parses: "JSON_parse jsonRuntime (content brokenManifest) = Inl SyntaxError"
    "JSON_parse jsonRuntime (content nullManifest) = Inr JNull"
    "JSON_parse jsonRuntime (content arrayManifest) = Inr (JArr [])"
    by (simp_all add: jsonRuntime_def quietRuntime_def brokenManifest_def nullManifest_def
          arrayManifest_def manifestText_def quoted_def)
  from malformed_manifest [OF paths(1), of "JSON_parse jsonRuntime" SyntaxError "[]" "[]" "[]"]
    parses(1)
  have broken: "runDependencyAgent (JSON_parse jsonRuntime) [brokenManifest]
       = [malformedFinding ''/app/package.json'']"
    by (simp add: runDependencyAgent_def brokenManifest_def)
  from malformed_manifest [OF paths(2), of "JSON_parse jsonRuntime" SyntaxError "[]" "[]" "[]"]
    parses(2)
  have null: "runDependencyAgent (JSON_parse jsonRuntime) [nullManifest]
       = [malformedFinding ''/app/package.json'']"
    by (simp add: runDependencyAgent_def nullManifest_def)
  from malformed_manifest [OF paths(3), of "JSON_parse jsonRuntime" _ "[]" _ _ "JArr []"]
    parses(3)
  have array: "runDependencyAgent (JSON_parse jsonRuntime) [arrayManifest] = []"
    by (simp add: runDependencyAgent_def)
  from paths(1) parses broken null array show ?thesis
    by blast
qed

text \<open>
  Claim C6 as the specification states it, that every content which is not a valid
  dependency manifest gets the finding, fails: the empty array is accepted by
  \<^verbatim>\<open>JSON.parse\<close> and is no manifest, and the agent pushes nothing for it.
\<close>

theorem invalid_manifest_counterexample:
  "endsWith (fsPath arrayManifest) ''package.json''
   \<and> \<not> validManifest (JSON_parse jsonRuntime) (content arrayManifest)
   \<and> runDependencyAgent (JSON_parse jsonRuntime) [arrayManifest] = []"
  by (simp add: arrayManifest_def endsWith_manifest validManifest_def jsonRuntime_def
        quietRuntime_def runDependencyAgent_def dependencyFile_def readDeps_def
        objectSpread_def objectKeys_def ownProperties_def)

section \<open>One finding for one call of eval\<close>

lemma dependency_ids:
  "v \<in> set (runDependencyAgent parse files) \<Longrightarrow> id_v v \<noteq> ''eval-usage''"
proof -
  have "w \<in> set (dependencyFile parse x acc) \<Longrightarrow> w \<in> set acc \<or> id_v w \<noteq> ''eval-usage''"
    for x acc w
    by (auto simp: dependencyFile_def fold_push_if split: sum.splits if_splits)
  from fold_set_inv [where f = "dependencyFile parse" and Q = "\<lambda>w. id_v w \<noteq> ''eval-usage''", OF this]
  show "v \<in> set (runDependencyAgent parse files) \<Longrightarrow> id_v v \<noteq> ''eval-usage''"
    unfolding runDependencyAgent_def by fastforce
qed

lemma compliance_ids:
  "v \<in> set (runComplianceAgent pii logging files) \<Longrightarrow> id_v v \<noteq> ''eval-usage''"
proof -
  have "w \<in> set (complianceFile pii logging x acc) \<Longrightarrow> w \<in> set acc \<or> id_v w \<noteq> ''eval-usage''"
    for x acc w
    by (auto simp: complianceFile_def fold_push Let_def split: if_splits)
  from fold_set_inv [where f = "complianceFile pii logging" and Q = "\<lambda>w. id_v w \<noteq> ''eval-usage''", OF this]
  show "v \<in> set (runComplianceAgent pii logging files) \<Longrightarrow> id_v v \<noteq> ''eval-usage''"
    unfolding runComplianceAgent_def by fastforce
qed

lemma aiRisk_ids:
  "v \<in> set (runAiRiskAgent prompts files) \<Longrightarrow> id_v v \<noteq> ''eval-usage''"
proof -
  have "w \<in> set (aiRiskFile prompts x acc) \<Longrightarrow> w \<in> set acc \<or> id_v w \<noteq> ''eval-usage''"
    for x acc w
    by (auto simp: aiRiskFile_def fold_push Let_def split: if_splits)
  from fold_set_inv [where f = "aiRiskFile prompts" and Q = "\<lambda>w. id_v w \<noteq> ''eval-usage''", OF this]
  show "v \<in> set (runAiRiskAgent prompts files) \<Longrightarrow> id_v v \<noteq> ''eval-usage''"
    unfolding runAiRiskAgent_def by fastforce
qed

lemma architecture_ids:
  "v \<in> set (runArchitectureAgent imports files) \<Longrightarrow> id_v v \<noteq> ''eval-usage''"
proof -
  have "w \<in> set (architectureFile imports x acc) \<Longrightarrow> w \<in> set acc \<or> id_v w \<noteq> ''eval-usage''"
    for x acc w
    by (auto simp: architectureFile_def fold_push Let_def split: if_splits)
  from fold_set_inv [where f = "architectureFile imports" and Q = "\<lambda>w. id_v w \<noteq> ''eval-usage''", OF this]
  show "v \<in> set (runArchitectureAgent imports files) \<Longrightarrow> id_v v \<noteq> ''eval-usage''"
    unfolding runArchitectureAgent_def by fastforce
qed

lemma pattern_ids: "v \<in> set (patternFindings sr dr g) \<Longrightarrow> id_v v \<noteq> ''eval-usage''"
  by (auto simp: patternFindings_def)

lemma nodeFindings_file: "v \<in> set (nodeFindings path node) \<Longrightarrow> file v = path"
  by (auto simp: nodeFindings_def split: if_splits)

lemma nodeFindings_eval:
  "v \<in> set (nodeFindings path node) \<Longrightarrow> id_v v = ''eval-usage''
     \<Longrightarrow> isEvalCall node \<and> v = evalFinding path (startLine node + 1)"
  by (auto simp: nodeFindings_def split: if_splits)

lemma structural_mem:
  assumes "v \<in> set (structuralFindings parse room g)"
  obtains sourceFile node where "matchesExt [''ts'', ''js'', ''jsx'', ''tsx''] (fsPath g)"
    and "parse (fsPath g) (content g) = Inr sourceFile"
    and "node \<in> set (nodes (rootNode sourceFile))" and "v \<in> set (nodeFindings (fsPath g) node)"
proof (cases "matchesExt [''ts'', ''js'', ''jsx'', ''tsx''] (fsPath g)")
  case False
  with assms show ?thesis by (simp add: structuralFindings_def astPass_findings)
next
  case True
  show ?thesis
  proof (cases "parse (fsPath g) (content g)")
    case (Inl err)
    with assms True show ?thesis by (simp add: structuralFindings_def astPass_findings)
  next
    case (Inr sourceFile)
    with assms True
    have "v \<in> set (fst (fst (visit room (fsPath g) (rootNode sourceFile) ([], {}))))"
      by (simp add: structuralFindings_def astPass_findings)
    from visit_subset [OF this] obtain node where "node \<in> set (nodes (rootNode sourceFile))"
      "v \<in> set (nodeFindings (fsPath g) node)"
      by auto
    with True Inr that show ?thesis by blast
  qed
qed

lemma structural_file: "v \<in> set (structuralFindings parse room g) \<Longrightarrow> file v = fsPath g"
  by (erule structural_mem) (rule nodeFindings_file)

lemma structural_eval:
  assumes "v \<in> set (structuralFindings parse room g)" and "id_v v = ''eval-usage''"
    and "parse (fsPath g) (content g) = Inr sourceFile"
  shows "\<exists>n\<in>set (filter isEvalCall (nodes (rootNode sourceFile))).
           v = evalFinding (fsPath g) (startLine n + 1)"
proof -
  from assms(1) obtain tree node where "parse (fsPath g) (content g) = Inr tree"
    "node \<in> set (nodes (rootNode tree))" "v \<in> set (nodeFindings (fsPath g) node)"
    by (rule structural_mem)
  with assms(3) nodeFindings_eval [OF _ assms(2)] show ?thesis
    by auto
qed

lemma allFindings_eval:
  assumes "v \<in> set (allFindings rt files)" and "id_v v = ''eval-usage''"
  shows "\<exists>g\<in>set files. v \<in> set (structuralFindings (createSourceFile rt) (stackRoom rt) g)"
proof -
  from assms(1) consider
      (security) "v \<in> set (runSecurityAgent (secretRegex rt) (debugRegex rt)
                                  (createSourceFile rt) (stackRoom rt) files)"
    | (dependency) "v \<in> set (runDependencyAgent (JSON_parse rt) files)"
    | (compliance) "v \<in> set (runComplianceAgent (piiRegex rt) (basicLoggingRule rt) files)"
    | (aiRisk) "v \<in> set (runAiRiskAgent (promptInjectionRegex rt) files)"
    | (architecture) "v \<in> set (runArchitectureAgent (serverDbImports rt) files)"
    by (auto simp: allFindings_def Let_def)
  then show ?thesis
  proof cases
    case security
    then obtain g where "g \<in> set files"
      "v \<in> set (structuralFindings (createSourceFile rt) (stackRoom rt) g)
        \<or> v \<in> set (patternFindings (secretRegex rt) (debugRegex rt) g)"
      by (auto simp: runSecurityAgent_files)
    with pattern_ids assms(2) show ?thesis by blast
  next
    case dependency
    with dependency_ids assms(2) show ?thesis by blast
  next
    case compliance
    with compliance_ids assms(2) show ?thesis by blast
  next
    case aiRisk
    with aiRisk_ids assms(2) show ?thesis by blast
  next
    case architecture
    with architecture_ids assms(2) show ?thesis by blast
  qed
qed

lemma filter_unique_singleton:
  assumes "e \<in> set xs" and "id_v e = i" and "file e = p"
    and "\<And>v. v \<in> set xs \<Longrightarrow> id_v v = i \<Longrightarrow> file v = p \<Longrightarrow> v = e"
  shows "filter (\<lambda>v. id_v v = i \<and> file v = p) (uniqueFindings xs) = [e]"
proof -
  have same: "filter (\<lambda>v. id_v v = i \<and> file v = p) (uniqueFindings xs)
      = filter (\<lambda>v. dedupKey v = dedupKey e) (uniqueFindings xs)"
  proof (rule filter_cong [OF refl])
    fix v assume "v \<in> set (uniqueFindings xs)"
    then have v: "v \<in> set xs" using set_uniqueFindings_subset by blast
    show "(id_v v = i \<and> file v = p) = (dedupKey v = dedupKey e)"
    proof
      assume "id_v v = i \<and> file v = p"
      with v assms(4) have "v = e" by blast
      then show "dedupKey v = dedupKey e" by simp
    next
      assume "dedupKey v = dedupKey e"
      with assms(2,3) show "id_v v = i \<and> file v = p" by (simp add: dedupKey_def)
    qed
  qed
  have "length (filter (\<lambda>v. dedupKey v = dedupKey e) (uniqueFindings xs)) = 1"
    using assms(1) by (simp add: count_key_uniqueFindings)
  then obtain w where w: "filter (\<lambda>v. id_v v = i \<and> file v = p) (uniqueFindings xs) = [w]"
    unfolding same by (auto simp: length_Suc_conv)
  have "w \<in> set (filter (\<lambda>v. id_v v = i \<and> file v = p) (uniqueFindings xs))"
    unfolding w by simp
  then have "w \<in> set (uniqueFindings xs)" and wi: "id_v w = i" and wp: "file w = p"
    by simp_all
  then have "w \<in> set xs" using set_uniqueFindings_subset by blast
  from assms(4) [OF this wi wp] w show ?thesis by simp
qed

lemma filter_unique_absent:
  assumes "\<And>v. v \<in> set xs \<Longrightarrow> \<not> p v"
  shows "filter p (uniqueFindings xs) = []"
  using assms set_uniqueFindings_subset [of xs] by (auto simp: filter_empty_conv)

text \<open>A walk for which the stack has no room down to the end of a sum throws there.\<close>

lemma visit_sumChain:
  "room \<le> k \<Longrightarrow> visit room path (sumChain k x) st = (st, Some RangeError)"
proof (induction k arbitrary: room st)
  case 0
  then show ?case by (simp add: visit_step)
next
  case (Suc k)
  show ?case
  proof (cases room)
    case 0
    then show ?thesis by (simp add: visit_step)
  next
    case (Suc r)
    with Suc.prems have "r \<le> k" by simp
    from Suc.IH [OF this] Suc show ?thesis
      by (simp add: visit_step [of "Suc r"] nodeFindings_def visitChildren_Cons)
  qed
qed

lemma evalCalls_sumChain:
  "filter isEvalCall (nodes (sumChain k x)) = filter isEvalCall (nodes x)"
  by (induction k) simp_all

lemma structural_deepScript:
  "structuralFindings (createSourceFile deepRuntime) (stackRoom deepRuntime) deepScript = []"
proof -
  have chain: "visit 9998 path (sumChain 20000 x) st = (st, Some RangeError)" for path x st
    by (rule visit_sumChain) simp
  have statement: "visit 9999 path (OtherNode [sumChain 20000 x] [] 0) st = (st, Some RangeError)"
    for path x st
    by (subst visit_step) (simp add: nodeFindings_def visitChildren_Cons chain)
  have root: "visit 10000 path (OtherNode [OtherNode [sumChain 20000 x] [] 0, OtherNode [] [] 0] [] 0) st
      = (st, Some RangeError)" for path x st
    by (subst visit_step) (simp add: nodeFindings_def visitChildren_Cons statement)
  have ext: "matchesExt [''ts'', ''js'', ''jsx'', ''tsx''] ''/app/deep.ts''"
    by (simp add: matchesExt_def endsWith_def lower_def)
  show ?thesis
    by (simp add: structuralFindings_def astPass_findings deepRuntime_def quietRuntime_def
          deepScript_def deepSource_def ext root)
qed

text \<open>
  Claim C4, as the source has it. Let a file of the audit have a path that matches
  \<^verbatim>\<open>.ts\<close>, \<^verbatim>\<open>.js\<close>, \<^verbatim>\<open>.jsx\<close> or \<^verbatim>\<open>.tsx\<close>, let the parser return a tree for it, and let
  exactly one node of the tree be a call whose callee is the identifier \<^verbatim>\<open>eval\<close>. When
  the call stack has room for the walk of the tree, the report has exactly one finding
  with id \<^verbatim>\<open>eval-usage\<close> for that file: the structural one, at the line of the call. When
  it has not, the walk throws, the error is swallowed, and the report has that one finding
  or none, as the walk reached the call or not. No pattern loop of any agent pushes a
  finding with this id. The file may occur several times in the list of the audit; no
  other file of the list has its path.
\<close>

theorem eval_reported_once:
  assumes "f \<in> set files"
    and "\<forall>g\<in>set files. fsPath g = fsPath f \<longrightarrow> g = f"
    and "matchesExt [''ts'', ''js'', ''jsx'', ''tsx''] (fsPath f)"
    and "createSourceFile rt (fsPath f) (content f) = Inr sourceFile"
    and "filter isEvalCall (nodes (rootNode sourceFile)) = [call]"
  shows "(depth (rootNode sourceFile) \<le> stackRoom rt \<longrightarrow>
            filter (\<lambda>v. id_v v = ''eval-usage'' \<and> file v = fsPath f)
              (vulnerabilities (runAudit rt now files))
            = [evalFinding (fsPath f) (startLine call + 1)])
       \<and> (filter (\<lambda>v. id_v v = ''eval-usage'' \<and> file v = fsPath f)
              (vulnerabilities (runAudit rt now files))
            = [evalFinding (fsPath f) (startLine call + 1)]
          \<or> filter (\<lambda>v. id_v v = ''eval-usage'' \<and> file v = fsPath f)
              (vulnerabilities (runAudit rt now files))
            = [])"
proof -
  let ?e = "evalFinding (fsPath f) (startLine call + 1)"
  let ?F = "filter (\<lambda>v. id_v v = ''eval-usage'' \<and> file v = fsPath f)
              (vulnerabilities (runAudit rt now files))"
  from assms(5) have "call \<in> set (filter isEvalCall (nodes (rootNode sourceFile)))"
    by simp
  then have call: "call \<in> set (nodes (rootNode sourceFile))" "isEvalCall call"
    by simp_all
  have only: "v = ?e"
    if "v \<in> set (allFindings rt files)" "id_v v = ''eval-usage''" "file v = fsPath f" for v
  proof -
    from allFindings_eval [OF that(1,2)] obtain g
      where g: "g \<in> set files"
        "v \<in> set (structuralFindings (createSourceFile rt) (stackRoom rt) g)"
      by blast
    from structural_file [OF g(2)] that(3) have "fsPath g = fsPath f" by simp
    with assms(2) g(1) have "g = f" by blast
    with g(2) have "v \<in> set (structuralFindings (createSourceFile rt) (stackRoom rt) f)" by simp
    from structural_eval [OF this that(2) assms(4)] show ?thesis
      unfolding assms(5) by simp
  qed
  have found: "?F = [?e]" if "?e \<in> set (allFindings rt files)"
    unfolding runAudit_def vulnerabilities_runScoringAgent
    by (rule filter_unique_singleton [OF that _ _ only]) simp_all
  have complete: "?F = [?e]" if "depth (rootNode sourceFile) \<le> stackRoom rt"
  proof -
    from call structural_complete [where parse = "createSourceFile rt", OF assms(3,4) that]
    have "?e \<in> set (structuralFindings (createSourceFile rt) (stackRoom rt) f)"
      by (auto simp: nodeFindings_def)
    with assms(1) have "?e \<in> set (allFindings rt files)"
      by (auto simp: allFindings_def runSecurityAgent_files)
    then show ?thesis by (rule found)
  qed
  have "?F = []" if "?e \<notin> set (allFindings rt files)"
    unfolding runAudit_def vulnerabilities_runScoringAgent
  proof (rule filter_unique_absent)
    fix v assume "v \<in> set (allFindings rt files)"
    with only [of v] that show "\<not> (id_v v = ''eval-usage'' \<and> file v = fsPath f)"
      by blast
  qed
  with found complete show ?thesis
    by blast
qed

theorem eval_reported_once_witness:
  "evalScript \<in> set [evalScript]
   \<and> matchesExt [''ts'', ''js'', ''jsx'', ''tsx''] (fsPath evalScript)
   \<and> createSourceFile scriptRuntime (fsPath evalScript) (content evalScript) = Inr evalSource
   \<and> filter isEvalCall (nodes (rootNode evalSource)) = [evalCall 1]
   \<and> depth (rootNode evalSource) \<le> stackRoom scriptRuntime
   \<and> filter (\<lambda>v. id_v v = ''eval-usage'' \<and> file v = ''/app/run.ts'')
         (vulnerabilities (runAudit scriptRuntime ''2026-01-01T00:00:00.000Z'' [evalScript]))
       = [evalFinding ''/app/run.ts'' 2]"
proof -
  have ext: "matchesExt [''ts'', ''js'', ''jsx'', ''tsx''] (fsPath evalScript)"
    by (simp add: evalScript_def matchesExt_def endsWith_def lower_def)
  have tree: "createSourceFile scriptRuntime (fsPath evalScript) (content evalScript) = Inr evalSource"
    by (simp add: scriptRuntime_def quietRuntime_def evalScript_def)
  have call: "filter isEvalCall (nodes (rootNode evalSource)) = [evalCall 1]"
    by (simp add: evalSource_def evalCall_def)
  have room: "depth (rootNode evalSource) \<le> stackRoom scriptRuntime"
    by (simp add: evalSource_def evalCall_def scriptRuntime_def quietRuntime_def)
  from eval_reported_once [OF _ _ ext tree call, of "[evalScript]" "''2026-01-01T00:00:00.000Z''"] room
  have "filter (\<lambda>v. id_v v = ''eval-usage'' \<and> file v = fsPath evalScript)
         (vulnerabilities (runAudit scriptRuntime ''2026-01-01T00:00:00.000Z'' [evalScript]))
       = [evalFinding (fsPath evalScript) (startLine (evalCall 1) + 1)]"
    by simp
  with ext tree call room show ?thesis
    by (simp add: evalScript_def evalCall_def numeral_2_eq_2)
qed

text \<open>
  Claim C4 as the specification states it, with no condition on the walk, fails: the deep
  script has a matching path, the parser returns its tree, the tree has exactly one call
  of \<^verbatim>\<open>eval\<close>, and the report has no finding with id \<^verbatim>\<open>eval-usage\<close> for it, because the
  walk throws before it reaches the call.
\<close>

theorem deep_tree_counterexample:
  "deepScript \<in> set [deepScript]
   \<and> matchesExt [''ts'', ''js'', ''jsx'', ''tsx''] (fsPath deepScript)
   \<and> createSourceFile deepRuntime (fsPath deepScript) (content deepScript) = Inr deepSource
   \<and> filter isEvalCall (nodes (rootNode deepSource)) = [evalCall 0]
   \<and> filter (\<lambda>v. id_v v = ''eval-usage'' \<and> file v = fsPath deepScript)
         (vulnerabilities (runAudit deepRuntime ''2026-01-01T00:00:00.000Z'' [deepScript]))
       = []"
proof -
  have ext: "matchesExt [''ts'', ''js'', ''jsx'', ''tsx''] (fsPath deepScript)"
    by (simp add: deepScript_def matchesExt_def endsWith_def lower_def)
  have tree: "createSourceFile deepRuntime (fsPath deepScript) (content deepScript) = Inr deepSource"
    by (simp add: deepRuntime_def quietRuntime_def deepScript_def)
  have call: "filter isEvalCall (nodes (rootNode deepSource)) = [evalCall 0]"
    by (simp add: deepSource_def evalCalls_sumChain) (simp add: evalCall_def)
  have none: "\<not> (id_v v = ''eval-usage'' \<and> file v = fsPath deepScript)"
    if "v \<in> set (allFindings deepRuntime [deepScript])" for v
  proof
    assume v: "id_v v = ''eval-usage'' \<and> file v = fsPath deepScript"
    with allFindings_eval [OF that]
    have "v \<in> set (structuralFindings (createSourceFile deepRuntime) (stackRoom deepRuntime) deepScript)"
      by simp
    then show False by (simp add: structural_deepScript)
  qed
  have "filter (\<lambda>v. id_v v = ''eval-usage'' \<and> file v = fsPath deepScript)
         (vulnerabilities (runAudit deepRuntime ''2026-01-01T00:00:00.000Z'' [deepScript])) = []"
    unfolding runAudit_def vulnerabilities_runScoringAgent
    by (rule filter_unique_absent) (rule none)
  with ext tree call show ?thesis
    by simp
qed

section \<open>The conversion reads the prefix again for every match\<close>

declare lowerBound.simps [simp del] T_lowerBound.simps [simp del]

lemma T_split_length: "T_split s sep = length s + 1"
  by (induction s) simp_all

lemma lowerBound_counts:
  assumes "sorted offsets" and "lo \<le> hi" and "hi \<le> length offsets"
    and "\<forall>i<lo. offsets ! i < x"
    and "\<forall>i. hi \<le> i \<and> i < length offsets \<longrightarrow> x \<le> offsets ! i"
  shows "lowerBound offsets x lo hi = length (filter (\<lambda>off. off < x) offsets)"
  using assms
proof (induction offsets x lo hi rule: lowerBound.induct)
  case (1 offsets x lo hi)
  show ?case
  proof (cases "lo < hi")
    case False
    with "1.prems" have eq: "hi = lo" by simp
    have "filter (\<lambda>off. off < x) (take lo offsets) = take lo offsets"
      using "1.prems" eq by (auto simp: filter_id_conv in_set_conv_nth)
    moreover have "filter (\<lambda>off. off < x) (drop lo offsets) = []"
      using "1.prems" eq by (auto simp: filter_empty_conv in_set_conv_nth not_less)
    ultimately have "filter (\<lambda>off. off < x) (take lo offsets @ drop lo offsets) = take lo offsets"
      by (simp only: filter_append) simp
    then have "length (filter (\<lambda>off. off < x) offsets) = lo"
      using "1.prems" eq by simp
    with False show ?thesis by (simp add: lowerBound.simps [of offsets x lo hi])
  next
    case True
    define mid where "mid = (lo + hi) div 2"
    from True have mid: "lo \<le> mid" "mid < hi" by (simp_all add: mid_def)
    show ?thesis
    proof (cases "offsets ! mid < x")
      case less: True
      have "\<forall>i<mid + 1. offsets ! i < x"
      proof (intro allI impI)
        fix i assume "i < mid + 1"
        then have "offsets ! i \<le> offsets ! mid"
          using "1.prems"(1,3) mid by (intro sorted_nth_mono) simp_all
        with less show "offsets ! i < x" by simp
      qed
      with "1.IH"(1) [OF True mid_def less "1.prems"(1)] "1.prems" mid
      have "lowerBound offsets x (mid + 1) hi = length (filter (\<lambda>off. off < x) offsets)"
        by simp
      with True less show ?thesis
        by (simp add: lowerBound.simps [of offsets x lo hi] mid_def Let_def)
    next
      case ge: False
      have "\<forall>i. mid \<le> i \<and> i < length offsets \<longrightarrow> x \<le> offsets ! i"
      proof (intro allI impI)
        fix i assume "mid \<le> i \<and> i < length offsets"
        then have "offsets ! mid \<le> offsets ! i"
          using "1.prems"(1) by (intro sorted_nth_mono) simp_all
        with ge show "x \<le> offsets ! i" by simp
      qed
      with "1.IH"(2) [OF True mid_def ge "1.prems"(1)] "1.prems" mid
      have "lowerBound offsets x lo mid = length (filter (\<lambda>off. off < x) offsets)"
        by simp
      with True ge show ?thesis
        by (simp add: lowerBound.simps [of offsets x lo hi] mid_def Let_def)
    qed
  qed
qed

lemma sorted_newlineIndex: "sorted (newlineIndex s)"
  by (simp add: newlineIndex_def sorted_wrt_filter)

lemma count_by_index:
  "length (filter (\<lambda>i. p (s ! i)) [0 ..< length s]) = length (filter p s)"
proof -
  have "length (filter p (map ((!) s) [0 ..< length s])) = length (filter (\<lambda>i. p (s ! i)) [0 ..< length s])"
    by (simp only: filter_map length_map comp_def)
  then show ?thesis by (simp add: map_nth)
qed

lemma filter_less_upt: "filter (\<lambda>i. i < x) [0 ..< n] = [0 ..< min x n]"
proof (induction n)
  case 0
  show ?case by simp
next
  case (Suc n)
  show ?case
  proof (cases "n < x")
    case True
    then have "min x n = n" "min x (Suc n) = Suc n" by simp_all
    with Suc True show ?thesis by simp
  next
    case False
    then have "min x n = x" "min x (Suc n) = x" by simp_all
    with Suc False show ?thesis by simp
  qed
qed

lemma newlineIndex_below:
  "length (filter (\<lambda>off. off < x) (newlineIndex s)) = length (filter (\<lambda>c. c = CHR 0x0A) (take x s))"
proof -
  have "filter (\<lambda>off. off < x) (newlineIndex s)
      = filter (\<lambda>i. s ! i = CHR 0x0A) (filter (\<lambda>i. i < x) [0 ..< length s])"
    by (simp add: newlineIndex_def conj_commute)
  also have "filter (\<lambda>i. i < x) [0 ..< length s] = [0 ..< min x (length s)]"
    by (rule filter_less_upt)
  also have "filter (\<lambda>i. s ! i = CHR 0x0A) [0 ..< min x (length s)]
      = filter (\<lambda>i. take x s ! i = CHR 0x0A) [0 ..< length (take x s)]"
    by (rule filter_cong) (simp_all add: min.commute)
  finally have "filter (\<lambda>off. off < x) (newlineIndex s)
      = filter (\<lambda>i. take x s ! i = CHR 0x0A) [0 ..< length (take x s)]" .
  then show ?thesis
    using count_by_index [of "\<lambda>c. c = CHR 0x0A" "take x s"] by (simp only:)
qed

text \<open>
  The binary search of an index takes a number of steps that is logarithmic in the number
  of its offsets.
\<close>

lemma T_lowerBound_logarithmic:
  "lo < hi \<Longrightarrow> 2 ^ T_lowerBound offsets x lo hi \<le> 4 * (hi - lo)"
proof (induction offsets x lo hi rule: T_lowerBound.induct)
  case (1 offsets x lo hi)
  define mid where "mid = (lo + hi) div 2"
  from "1.prems" have mid: "lo \<le> mid" "mid < hi" by (simp_all add: mid_def)
  have half: "2 * mid \<le> lo + hi" "lo + hi < 2 * mid + 2"
    unfolding mid_def by simp_all
  show ?case
  proof (cases "offsets ! mid < x")
    case True
    have step: "T_lowerBound offsets x lo hi = T_lowerBound offsets x (mid + 1) hi + 1"
      using "1.prems" True by (subst T_lowerBound.simps) (simp add: mid_def Let_def)
    show ?thesis
    proof (cases "mid + 1 < hi")
      case less: True
      from "1.IH"(1) [OF "1.prems" mid_def True less]
      have "2 ^ T_lowerBound offsets x (mid + 1) hi \<le> 4 * (hi - (mid + 1))" .
      moreover have "2 * (hi - (mid + 1)) \<le> hi - lo"
        using half mid by linarith
      ultimately show ?thesis
        unfolding step by simp
    next
      case False
      then have "T_lowerBound offsets x (mid + 1) hi = 1"
        by (subst T_lowerBound.simps) simp
      with "1.prems" show ?thesis
        unfolding step by simp
    qed
  next
    case ge: False
    have step: "T_lowerBound offsets x lo hi = T_lowerBound offsets x lo mid + 1"
      using "1.prems" ge by (subst T_lowerBound.simps) (simp add: mid_def Let_def)
    show ?thesis
    proof (cases "lo < mid")
      case less: True
      from "1.IH"(2) [OF "1.prems" mid_def ge less]
      have "2 ^ T_lowerBound offsets x lo mid \<le> 4 * (mid - lo)" .
      moreover have "2 * (mid - lo) \<le> hi - lo"
        using half mid by linarith
      ultimately show ?thesis
        unfolding step by simp
    next
      case False
      then have "T_lowerBound offsets x lo mid = 1"
        by (subst T_lowerBound.simps) simp
      with "1.prems" show ?thesis
        unfolding step by simp
    qed
  qed
qed

text \<open>
  Claim C9, as the source has it. The conversion keeps no index of line feeds: for every
  match it splits the prefix of the content before the offset of the match, in as many
  steps as the prefix has characters, plus one. The line it gives is one more than the
  number of line feeds before the offset, which is also what a binary search of the sorted
  newline index gives.
\<close>

theorem lineNumberAt_rescans:
  "T_lineNumberAt content' index' = min index' (length content') + 1
   \<and> lineNumberAt content' index'
       = Suc (length (filter (\<lambda>c. c = CHR 0x0A) (take index' content')))
   \<and> lineNumberAt content' index' = lineOfOffset (newlineIndex content') index'"
proof -
  have "lowerBound (newlineIndex content') index' 0 (length (newlineIndex content'))
      = length (filter (\<lambda>off. off < index') (newlineIndex content'))"
    by (rule lowerBound_counts) (simp_all add: sorted_newlineIndex)
  then show ?thesis
    by (simp add: T_lineNumberAt_def T_split_length lineNumberAt_def length_split substring_def
          lineOfOffset_def newlineIndex_below min.commute)
qed

lemma fourLines_steps:
  "lineNumberAt fourLines 30 = 4"
  "newlineIndex fourLines = [9, 19, 29]"
  "T_lineNumberAt fourLines 30 = 31"
  "T_lineOfOffset (newlineIndex fourLines) 30 = 3"
  by (simp_all add: lineNumberAt_def T_lineNumberAt_def T_split_length substring_def
        fourLines_def T_lineOfOffset_def newlineIndex_def T_lowerBound.simps)

text \<open>
  Claim C9 as the specification states it, that the conversion of a match is a binary
  search of a newline index and does not read the prefix again, fails: for a match at the
  beginning of the last of four lines, at offset 30, the conversion of the source takes 31
  steps, where the binary search of the index of three line feeds takes three.
\<close>

theorem searchesIndex_counterexample: "\<not> searchesIndex fourLines 30"
  by (simp add: searchesIndex_def T_lineNumberAt_def T_split_length substring_def fourLines_def
        T_lineOfOffset_def newlineIndex_def T_lowerBound.simps)

end
